theory Spec2Isabelle
  imports Complex_Main "HOL-Library.Char_ord" "HOL-Library.List_Lexorder" "HOL-Library.Multiset"
begin

section \<open>Shotcraft case-based inventory: the computation of \<open>compute_results\<close>\<close>

text \<open>
  The development embeds \<^verbatim>\<open>compute_results\<close> of \<^verbatim>\<open>src/app.py\<close> (lines 68 to 105):
  the left merge of the components table with the on-hand table, the numeric coercion
  of the two quantity columns, the columns \<^verbatim>\<open>Required\<close> and \<^verbatim>\<open>Remaining\<close>, the bottleneck
  branch with \<^verbatim>\<open>math.floor\<close> and \<^verbatim>\<open>idxmin\<close>, the shortage filter and the sorted display.

  A data frame is a list of rows in positional order. Component names and units are
  strings. A float is a finite value, an infinity or NaN. Arithmetic on finite values
  rounds the exact result to the nearest double, ties to even, and overflows to an
  infinity, as IEEE 754 binary64 does; the special values follow IEEE 754 as Python and
  pandas apply it. The sign of zero is not modelled.
\<close>

subsection \<open>Floats\<close>

datatype fl = Fin real | PInf | NInf | NaN

text \<open>Python's exceptions that the computation can raise.\<close>

datatype error = OverflowError | ValueError | ZeroDivisionError

text \<open>\<^verbatim>\<open>x < y\<close> on floats: every comparison with NaN is false.\<close>

fun flt :: "fl \<Rightarrow> fl \<Rightarrow> bool" where
  "flt NaN y = False"
| "flt x NaN = False"
| "flt (Fin a) (Fin b) = (a < b)"
| "flt (Fin a) PInf = True"
| "flt (Fin a) NInf = False"
| "flt PInf y = False"
| "flt NInf NInf = False"
| "flt NInf y = True"

text \<open>\<^verbatim>\<open>x <= y\<close> on floats.\<close>

fun fle :: "fl \<Rightarrow> fl \<Rightarrow> bool" where
  "fle NaN y = False"
| "fle x NaN = False"
| "fle x y = (x = y \<or> flt x y)"

text \<open>
  Rounding to the nearest integer, ties to the even one: the rounding of the significand.
\<close>

definition round_half_even :: "real \<Rightarrow> int" where
  "round_half_even q =
     (let f = \<lfloor>q\<rfloor>
      in if q - of_int f < 1 / 2 then f
         else if 1 / 2 < q - of_int f then f + 1
         else if even f then f else f + 1)"

text \<open>
  The binary exponent of a positive real, kept within the range of binary64: the \<open>e\<close>
  with \<open>2 ^ e \<le> a < 2 ^ (e + 1)\<close>, but at least -1022 (below that the numbers are
  subnormal and share one spacing) and at most 1023. It is found by stepping up from 0
  or down from -1.
\<close>

function expo_up :: "real \<Rightarrow> int \<Rightarrow> int" where
  "expo_up a k = (if 1023 \<le> k \<or> a < 2 powi (k + 1) then k else expo_up a (k + 1))"
  by pat_completeness auto
termination
  by (relation "measure (\<lambda>(a, k). nat (1023 - k))") auto

function expo_down :: "real \<Rightarrow> int \<Rightarrow> int" where
  "expo_down a k = (if k \<le> - 1022 \<or> 2 powi k \<le> a then k else expo_down a (k - 1))"
  by pat_completeness auto
termination
  by (relation "measure (\<lambda>(a, k). nat (k + 1022))") auto

declare expo_up.simps [simp del] expo_down.simps [simp del]

definition exponent :: "real \<Rightarrow> int" where
  "exponent a = (if 1 \<le> a then expo_up a 0 else expo_down a (- 1))"

text \<open>
  The double nearest to a positive real: the significand has 53 bits, so the spacing at
  exponent \<open>e\<close> is \<open>2 ^ (e - 52)\<close>; a result of \<open>2 ^ 1024\<close> or more is positive infinity.
\<close>

definition round_pos :: "real \<Rightarrow> fl" where
  "round_pos a =
     (let e = exponent a;
          ulp = 2 powi (e - 52);
          n = round_half_even (a / ulp)
      in if e = 1023 \<and> 2 ^ 53 \<le> n then PInf else Fin (of_int n * ulp))"

fun fneg :: "fl \<Rightarrow> fl" where
  "fneg (Fin a) = Fin (- a)"
| "fneg PInf = NInf"
| "fneg NInf = PInf"
| "fneg NaN = NaN"

text \<open>The double an exact result is rounded to.\<close>

definition round_double :: "real \<Rightarrow> fl" where
  "round_double x =
     (if x = 0 then Fin 0 else if x < 0 then fneg (round_pos (- x)) else round_pos x)"

text \<open>The sign of an infinite product or quotient, from the sign of a finite factor.\<close>

fun signed_inf :: "bool \<Rightarrow> real \<Rightarrow> fl" where
  "signed_inf pos r =
     (if r = 0 then NaN else if (0 < r) = pos then PInf else NInf)"

text \<open>\<^verbatim>\<open>x * y\<close>: NaN propagates, and infinity times zero is NaN.\<close>

fun fmul :: "fl \<Rightarrow> fl \<Rightarrow> fl" where
  "fmul NaN y = NaN"
| "fmul x NaN = NaN"
| "fmul (Fin a) (Fin b) = round_double (a * b)"
| "fmul (Fin a) PInf = signed_inf True a"
| "fmul (Fin a) NInf = signed_inf False a"
| "fmul PInf (Fin b) = signed_inf True b"
| "fmul NInf (Fin b) = signed_inf False b"
| "fmul PInf PInf = PInf"
| "fmul PInf NInf = NInf"
| "fmul NInf PInf = NInf"
| "fmul NInf NInf = PInf"

text \<open>\<^verbatim>\<open>x - y\<close>: the difference of equal infinities is NaN.\<close>

fun fsub :: "fl \<Rightarrow> fl \<Rightarrow> fl" where
  "fsub NaN y = NaN"
| "fsub x NaN = NaN"
| "fsub (Fin a) (Fin b) = round_double (a - b)"
| "fsub (Fin a) PInf = NInf"
| "fsub (Fin a) NInf = PInf"
| "fsub PInf PInf = NaN"
| "fsub PInf y = PInf"
| "fsub NInf NInf = NaN"
| "fsub NInf y = NInf"

text \<open>
  \<^verbatim>\<open>x / y\<close> on Python floats, which is what the row-wise \<^verbatim>\<open>apply\<close> divides: a zero
  divisor raises \<^verbatim>\<open>ZeroDivisionError\<close>, and a quotient too large for a double is an
  infinity. A finite value over an infinity is zero.
\<close>

fun py_div :: "fl \<Rightarrow> fl \<Rightarrow> error + fl" where
  "py_div x (Fin b) =
     (if b = 0 then Inl ZeroDivisionError
      else (case x of
              Fin a \<Rightarrow> Inr (round_double (a / b))
            | PInf \<Rightarrow> Inr (signed_inf True b)
            | NInf \<Rightarrow> Inr (signed_inf False b)
            | NaN \<Rightarrow> Inr NaN))"
| "py_div (Fin a) y = (if y = NaN then Inr NaN else Inr (Fin 0))"
| "py_div x y = Inr NaN"

text \<open>
  \<^verbatim>\<open>math.floor\<close>: an infinity raises \<^verbatim>\<open>OverflowError\<close>, NaN raises \<^verbatim>\<open>ValueError\<close>.
\<close>

fun math_floor :: "fl \<Rightarrow> error + int" where
  "math_floor (Fin a) = Inr \<lfloor>a\<rfloor>"
| "math_floor NaN = Inl ValueError"
| "math_floor x = Inl OverflowError"

text \<open>\<^verbatim>\<open>Series.min()\<close> with its default \<^verbatim>\<open>skipna=True\<close>: NaN when nothing is left.\<close>

fun series_min :: "fl list \<Rightarrow> fl" where
  "series_min [] = NaN"
| "series_min (x # xs) =
     (let m = series_min xs
      in if x = NaN then m else if m = NaN then x else if flt m x then m else x)"

text \<open>
  \<^verbatim>\<open>Series.idxmin()\<close>: the position of the first occurrence of the minimum. The frame has
  a fresh positional index after the merge (and \<^verbatim>\<open>load_excel\<close> resets the index of the
  components), so label and position coincide. It has no answer on a series with
  nothing but NaN.
\<close>

definition idxmin :: "fl list \<Rightarrow> nat option" where
  "idxmin xs =
     (let m = series_min xs
      in if m = NaN then None else Some (length (takeWhile (\<lambda>x. x \<noteq> m) xs)))"

subsection \<open>Tables\<close>

text \<open>
  A cell of a quantity column before coercion: either something \<^verbatim>\<open>pd.to_numeric\<close> reads
  as a float (a number, or text that parses as one, the special values included), or
  anything else (other text, an empty cell), which \<^verbatim>\<open>errors="coerce"\<close> turns into NaN.
\<close>

datatype cell = Num fl | NonNumeric

text \<open>
  The two tables have the columns \<^verbatim>\<open>load_excel\<close> gives them. A row of \<^verbatim>\<open>components\<close> is
  (Component, Per_Case, UOM); a row of \<^verbatim>\<open>onhand_df\<close> is (Component, On_Hand);
  \<^verbatim>\<open>onhand_df\<close> is \<^verbatim>\<open>None\<close> when the workbook has no usable inventory sheet. Nothing
  forbids two rows of a table to bear the same name. A merged row is
  (Component, Per_Case, UOM, On_Hand).
\<close>

type_synonym component = "string \<times> cell \<times> string"
type_synonym onhand = "string \<times> cell"
type_synonym merged = "string \<times> cell \<times> string \<times> cell"

record row =
  Component :: string
  UOM :: string
  On_Hand :: fl
  Per_Case :: fl
  Required :: fl
  Remaining :: fl

text \<open>The dictionary \<^verbatim>\<open>bottleneck\<close> of lines 89 to 95.\<close>

record bottleneck =
  Item :: string
  Item_UOM :: string
  Item_On_Hand :: fl
  Item_Per_Case :: fl
  MaxCasesByItem :: fl

text \<open>
  The locals at the end of \<^verbatim>\<open>compute_results\<close>. The function returns the triple
  \<^verbatim>\<open>(display, int(max_sellable), shortages)\<close>; \<^verbatim>\<open>bottleneck\<close> is computed and not returned.
\<close>

record outcome =
  display :: "row list"
  max_sellable :: int
  shortages :: "row list"
  bottleneck_of :: "bottleneck option"

subsection \<open>The computation\<close>

text \<open>\<^verbatim>\<open>pd.to_numeric(col, errors="coerce").fillna(0.0)\<close>, cell by cell.\<close>

definition to_numeric :: "cell \<Rightarrow> fl" where
  "to_numeric c = (case c of Num x \<Rightarrow> x | NonNumeric \<Rightarrow> NaN)"

definition fillna :: "fl \<Rightarrow> fl" where
  "fillna x = (if x = NaN then Fin 0 else x)"

definition numeric :: "cell \<Rightarrow> fl" where
  "numeric c = fillna (to_numeric c)"

text \<open>
  \<^verbatim>\<open>df.merge(onhand_df, on="Component", how="left")\<close>: every row of the left table, in
  order, once for each row of the right table with the same key, in the right table's
  order; a left row with no match appears once with a missing (NaN) \<^verbatim>\<open>On_Hand\<close>.
\<close>

definition merge_row :: "onhand list \<Rightarrow> component \<Rightarrow> merged list" where
  "merge_row oh c =
     (case c of (nm, p, u) \<Rightarrow>
        (case filter (\<lambda>e. fst e = nm) oh of
           [] \<Rightarrow> [(nm, p, u, Num NaN)]
         | ms \<Rightarrow> map (\<lambda>e. (nm, p, u, snd e)) ms))"

definition merge_left :: "component list \<Rightarrow> onhand list \<Rightarrow> merged list" where
  "merge_left cs oh = concat (map (merge_row oh) cs)"

text \<open>Lines 69 to 74: without an on-hand table the column is the constant 0.0.\<close>

definition with_on_hand :: "component list \<Rightarrow> onhand list option \<Rightarrow> merged list" where
  "with_on_hand cs H =
     (case H of
        Some oh \<Rightarrow> merge_left cs oh
      | None \<Rightarrow> map (\<lambda>c. case c of (nm, p, u) \<Rightarrow> (nm, p, u, Num (Fin 0))) cs)"

text \<open>Lines 77 to 81 on one row; \<^verbatim>\<open>float(cases_sold)\<close> is a finite float.\<close>

definition make_row :: "real \<Rightarrow> merged \<Rightarrow> row" where
  "make_row cases_sold m =
     (case m of (nm, p, u, q) \<Rightarrow>
        (let pc = numeric p;
             oh = numeric q;
             req = fmul pc (Fin cases_sold)
         in \<lparr>Component = nm, UOM = u, On_Hand = oh, Per_Case = pc,
             Required = req, Remaining = fsub oh req\<rparr>))"

definition build_df :: "component list \<Rightarrow> onhand list option \<Rightarrow> real \<Rightarrow> row list" where
  "build_df cs H cases_sold = map (make_row cases_sold) (with_on_hand cs H)"

text \<open>The lambda of line 86.\<close>

definition max_cases_by_item :: "row \<Rightarrow> error + fl" where
  "max_cases_by_item r =
     (if flt (Fin 0) (Per_Case r) then py_div (On_Hand r) (Per_Case r) else Inr PInf)"

text \<open>\<^verbatim>\<open>df.apply(..., axis=1)\<close>: the first exception raised by a row aborts the call.\<close>

fun apply_rows :: "(row \<Rightarrow> error + fl) \<Rightarrow> row list \<Rightarrow> error + fl list" where
  "apply_rows f [] = Inr []"
| "apply_rows f (r # rs) =
     (case f r of
        Inl e \<Rightarrow> Inl e
      | Inr v \<Rightarrow> (case apply_rows f rs of Inl e \<Rightarrow> Inl e | Inr vs \<Rightarrow> Inr (v # vs)))"

text \<open>
  Lines 84 to 98. \<^verbatim>\<open>math.floor\<close> runs before \<^verbatim>\<open>idxmin\<close>, so an all-NaN column has already
  raised when \<^verbatim>\<open>idxmin\<close> is reached; that branch is kept as an error.
\<close>

definition find_bottleneck :: "row list \<Rightarrow> error + (int \<times> bottleneck option)" where
  "find_bottleneck df =
     (if filter (\<lambda>r. flt (Fin 0) (Per_Case r)) df \<noteq> [] then
        (case apply_rows max_cases_by_item df of
           Inl e \<Rightarrow> Inl e
         | Inr col \<Rightarrow>
             (case math_floor (series_min col) of
                Inl e \<Rightarrow> Inl e
              | Inr ms \<Rightarrow>
                  (case idxmin col of
                     None \<Rightarrow> Inl ValueError
                   | Some i \<Rightarrow>
                       (let bottleneck_row = df ! i
                        in Inr (ms,
                             Some \<lparr>Item = Component bottleneck_row,
                                   Item_UOM = UOM bottleneck_row,
                                   Item_On_Hand = On_Hand bottleneck_row,
                                   Item_Per_Case = Per_Case bottleneck_row,
                                   MaxCasesByItem = col ! i\<rparr>)))))
      else Inr (0, None))"

text \<open>
  The whole function, with every local. The display is sorted by component name;
  \<open>sort_key\<close> is a stable insertion sort, and the order pandas gives to rows of equal
  name is not relied on below.
\<close>

definition compute_locals ::
    "component list \<Rightarrow> onhand list option \<Rightarrow> real \<Rightarrow> error + outcome" where
  "compute_locals cs H cases_sold =
     (let df = build_df cs H cases_sold
      in (case find_bottleneck df of
            Inl e \<Rightarrow> Inl e
          | Inr (ms, b) \<Rightarrow>
              Inr \<lparr>display = sort_key Component df,
                   max_sellable = ms,
                   shortages = filter (\<lambda>r. flt (Remaining r) (Fin 0)) df,
                   bottleneck_of = b\<rparr>))"

text \<open>What the function returns: line 105.\<close>

definition compute_results ::
    "component list \<Rightarrow> onhand list option \<Rightarrow> real \<Rightarrow> error + (row list \<times> int \<times> row list)" where
  "compute_results cs H cases_sold =
     (case compute_locals cs H cases_sold of
        Inl e \<Rightarrow> Inl e
      | Inr res \<Rightarrow> Inr (display res, max_sellable res, shortages res))"

subsection \<open>Vocabulary of the statements\<close>

text \<open>
  The float \<open>on_hand / per_case_rate\<close> of a row, and the value the row's bottleneck column
  holds: that quotient for a row with a positive rate, positive infinity for every other
  row.
\<close>

definition float_quotient :: "row \<Rightarrow> fl" where
  "float_quotient r =
     (case py_div (On_Hand r) (Per_Case r) of Inr v \<Rightarrow> v | Inl e \<Rightarrow> NaN)"

definition item_ratio :: "row \<Rightarrow> fl" where
  "item_ratio r = (if flt (Fin 0) (Per_Case r) then float_quotient r else PInf)"

text \<open>
  A cell that is not an infinity: a finite number, NaN, or something not numeric; and
  an on-hand table without an infinity.
\<close>

definition finite_cell :: "cell \<Rightarrow> bool" where
  "finite_cell c = (c \<noteq> Num PInf \<and> c \<noteq> Num NInf)"

definition finite_onhand :: "onhand list option \<Rightarrow> bool" where
  "finite_onhand H =
     (case H of None \<Rightarrow> True | Some oh \<Rightarrow> list_all (\<lambda>e. finite_cell (snd e)) oh)"

text \<open>
  A real that is a double: rounding leaves it as it is. A data frame holds doubles, so
  the finite cells of a table are such numbers.
\<close>

definition is_double :: "real \<Rightarrow> bool" where
  "is_double b = (round_double b = Fin b)"

definition double_cell :: "cell \<Rightarrow> bool" where
  "double_cell c = (case c of Num (Fin b) \<Rightarrow> is_double b | _ \<Rightarrow> True)"

definition double_onhand :: "onhand list option \<Rightarrow> bool" where
  "double_onhand H =
     (case H of None \<Rightarrow> True | Some oh \<Rightarrow> list_all (\<lambda>e. double_cell (snd e)) oh)"

text \<open>The rate of a component after coercion.\<close>

definition rate :: "component \<Rightarrow> fl" where
  "rate c = numeric (fst (snd c))"

text \<open>
  How many rows the merge makes of a component named \<open>nm\<close>: one for each on-hand entry
  of that name, and one when there is none or no on-hand table.
\<close>

definition copies :: "onhand list option \<Rightarrow> string \<Rightarrow> nat" where
  "copies H nm =
     (case H of None \<Rightarrow> 1 | Some oh \<Rightarrow> max 1 (length (filter (\<lambda>e. fst e = nm) oh)))"

text \<open>A cell with NaN and everything not numeric replaced by the number 0.\<close>

definition zero_filled :: "cell \<Rightarrow> cell" where
  "zero_filled c = (if c = NonNumeric \<or> c = Num NaN then Num (Fin 0) else c)"

definition zero_filled_components :: "component list \<Rightarrow> component list" where
  "zero_filled_components cs = map (\<lambda>c. case c of (nm, p, u) \<Rightarrow> (nm, zero_filled p, u)) cs"

definition zero_filled_onhand :: "onhand list option \<Rightarrow> onhand list option" where
  "zero_filled_onhand H = map_option (map (\<lambda>e. case e of (nm, q) \<Rightarrow> (nm, zero_filled q))) H"

text \<open>
  The on-hand cells the merge gives to a component named \<open>nm\<close>: the quantity of every
  on-hand entry of that name, in the table's order; one missing value when there is no
  such entry; the constant 0.0 when there is no on-hand table.
\<close>

definition on_hand_cells :: "onhand list option \<Rightarrow> string \<Rightarrow> cell list" where
  "on_hand_cells H nm =
     (case H of
        None \<Rightarrow> [Num (Fin 0)]
      | Some oh \<Rightarrow>
          (if filter (\<lambda>e. fst e = nm) oh = [] then [Num NaN]
           else map snd (filter (\<lambda>e. fst e = nm) oh)))"

text \<open>The names the on-hand table holds.\<close>

definition onhand_names :: "onhand list option \<Rightarrow> string set" where
  "onhand_names H = (case H of None \<Rightarrow> {} | Some oh \<Rightarrow> fst ` set oh)"

text \<open>The dictionary of lines 89 to 95 for a given row, and the first row of a frame
  whose bottleneck column holds a given value.\<close>

definition info_of :: "row \<Rightarrow> bottleneck" where
  "info_of r =
     \<lparr>Item = Component r, Item_UOM = UOM r, Item_On_Hand = On_Hand r,
      Item_Per_Case = Per_Case r, MaxCasesByItem = item_ratio r\<rparr>"

definition first_at :: "fl \<Rightarrow> row list \<Rightarrow> row" where
  "first_at m df = df ! length (takeWhile (\<lambda>v. v \<noteq> m) (map item_ratio df))"

subsection \<open>Evaluation and order of floats\<close>

lemmas round_eval =
  round_double_def round_pos_def exponent_def round_half_even_def expo_up.simps
  expo_down.simps

lemmas compute_defs =
  compute_results_def compute_locals_def build_df_def with_on_hand_def merge_left_def
  merge_row_def make_row_def numeric_def fillna_def to_numeric_def find_bottleneck_def
  max_cases_by_item_def idxmin_def Let_def round_eval

lemma flt_irrefl [simp]: "\<not> flt x x"
  by (cases x) auto

lemma fle_refl [simp]: "x \<noteq> NaN \<Longrightarrow> fle x x"
  by (cases x) auto

lemma not_flt_fle: "x \<noteq> NaN \<Longrightarrow> y \<noteq> NaN \<Longrightarrow> \<not> flt x y \<Longrightarrow> fle y x"
  by (cases x; cases y) auto

lemma flt_fle: "flt x y \<Longrightarrow> fle x y"
  by (cases x; cases y) auto

lemma fle_trans: "fle x y \<Longrightarrow> fle y z \<Longrightarrow> fle x z"
  by (cases x; cases y; cases z) auto

lemma fle_antisym: "fle x y \<Longrightarrow> fle y x \<Longrightarrow> x = y"
  by (cases x; cases y) auto

lemma fle_Fin [simp]: "fle (Fin a) (Fin b) = (a \<le> b)"
  by auto

lemma fle_PInf [simp]: "fle x PInf = (x \<noteq> NaN)"
  by (cases x) auto

lemma fle_NInf [simp]: "fle NInf x = (x \<noteq> NaN)"
  by (cases x) auto

subsection \<open>Rounding to a double is monotone\<close>

lemma round_half_even_bounds:
  "\<lfloor>q\<rfloor> \<le> round_half_even q" "round_half_even q \<le> \<lfloor>q\<rfloor> + 1"
  by (simp_all add: round_half_even_def Let_def)

lemma round_half_even_ge: "of_int n \<le> q \<Longrightarrow> n \<le> round_half_even q"
  using round_half_even_bounds(1) [of q] by (simp add: le_floor_iff order_trans [rotated])

lemma round_half_even_le:
  assumes "q \<le> of_int n"
  shows "round_half_even q \<le> n"
proof (cases "q = of_int n")
  case True
  then show ?thesis by (simp add: round_half_even_def)
next
  case False
  with assms have "q < of_int n" by simp
  then have "\<lfloor>q\<rfloor> < n" by (simp add: floor_less_iff)
  then show ?thesis using round_half_even_bounds(2) [of q] by simp
qed

lemma round_half_even_mono:
  assumes "q \<le> q'"
  shows "round_half_even q \<le> round_half_even q'"
proof (cases "\<lfloor>q\<rfloor> = \<lfloor>q'\<rfloor>")
  case True
  with assms show ?thesis by (auto simp: round_half_even_def Let_def)
next
  case False
  with assms have "\<lfloor>q\<rfloor> < \<lfloor>q'\<rfloor>" using floor_mono [OF assms] by simp
  then show ?thesis
    using round_half_even_bounds(2) [of q] round_half_even_bounds(1) [of q'] by simp
qed

lemma expo_up_stop: "1023 \<le> k \<or> a < 2 powi (k + 1) \<Longrightarrow> expo_up a k = k"
  by (subst expo_up.simps) simp

lemma expo_up_step: "\<not> (1023 \<le> k \<or> a < 2 powi (k + 1)) \<Longrightarrow> expo_up a k = expo_up a (k + 1)"
  by (subst expo_up.simps) simp

lemma expo_down_stop: "k \<le> - 1022 \<or> 2 powi k \<le> a \<Longrightarrow> expo_down a k = k"
  by (subst expo_down.simps) simp

lemma expo_down_step:
  "\<not> (k \<le> - 1022 \<or> 2 powi k \<le> a) \<Longrightarrow> expo_down a k = expo_down a (k - 1)"
  by (subst expo_down.simps) simp

lemma expo_up_range: "k \<le> 1023 \<Longrightarrow> k \<le> expo_up a k \<and> expo_up a k \<le> 1023"
proof (induction a k rule: expo_up.induct)
  case (1 a k)
  show ?case
  proof (cases "1023 \<le> k \<or> a < 2 powi (k + 1)")
    case True
    then show ?thesis using "1.prems" by (simp add: expo_up_stop)
  next
    case False
    then show ?thesis using "1.IH" "1.prems" by (simp add: expo_up_step)
  qed
qed

lemma expo_up_lower: "2 powi k \<le> a \<Longrightarrow> 2 powi expo_up a k \<le> a"
proof (induction a k rule: expo_up.induct)
  case (1 a k)
  show ?case
  proof (cases "1023 \<le> k \<or> a < 2 powi (k + 1)")
    case True
    then show ?thesis using "1.prems" by (simp add: expo_up_stop)
  next
    case False
    then show ?thesis using "1.IH" by (simp add: expo_up_step)
  qed
qed

lemma expo_up_upper: "k \<le> 1023 \<Longrightarrow> expo_up a k = 1023 \<or> a < 2 powi (expo_up a k + 1)"
proof (induction a k rule: expo_up.induct)
  case (1 a k)
  show ?case
  proof (cases "1023 \<le> k \<or> a < 2 powi (k + 1)")
    case True
    then show ?thesis using "1.prems" by (auto simp: expo_up_stop)
  next
    case False
    then show ?thesis using "1.IH" "1.prems" by (simp add: expo_up_step)
  qed
qed

lemma expo_down_range: "- 1022 \<le> k \<Longrightarrow> - 1022 \<le> expo_down a k \<and> expo_down a k \<le> k"
proof (induction a k rule: expo_down.induct)
  case (1 a k)
  show ?case
  proof (cases "k \<le> - 1022 \<or> 2 powi k \<le> a")
    case True
    then show ?thesis using "1.prems" by (simp add: expo_down_stop)
  next
    case False
    then show ?thesis using "1.IH" "1.prems" by (simp add: expo_down_step)
  qed
qed

lemma expo_down_upper: "a < 2 powi (k + 1) \<Longrightarrow> a < 2 powi (expo_down a k + 1)"
proof (induction a k rule: expo_down.induct)
  case (1 a k)
  show ?case
  proof (cases "k \<le> - 1022 \<or> 2 powi k \<le> a")
    case True
    then show ?thesis using "1.prems" by (simp add: expo_down_stop)
  next
    case False
    then show ?thesis using "1.IH" by (simp add: expo_down_step)
  qed
qed

lemma expo_down_lower:
  "- 1022 \<le> k \<Longrightarrow> expo_down a k = - 1022 \<or> 2 powi expo_down a k \<le> a"
proof (induction a k rule: expo_down.induct)
  case (1 a k)
  show ?case
  proof (cases "k \<le> - 1022 \<or> 2 powi k \<le> a")
    case True
    then show ?thesis using "1.prems" by (auto simp: expo_down_stop)
  next
    case False
    then show ?thesis using "1.IH" "1.prems" by (simp add: expo_down_step)
  qed
qed

lemma exponent_range: "- 1022 \<le> exponent a" "exponent a \<le> 1023"
  using expo_up_range [of 0 a] expo_down_range [of "- 1" a]
  by (auto simp: exponent_def)

lemma exponent_lower: "exponent a = - 1022 \<or> 2 powi exponent a \<le> a"
  using expo_up_lower [of 0 a] expo_down_lower [of "- 1" a]
  by (auto simp: exponent_def)

lemma exponent_upper: "exponent a = 1023 \<or> a < 2 powi (exponent a + 1)"
  using expo_up_upper [of 0 a] expo_down_upper [of a "- 1"]
  by (auto simp: exponent_def)

lemma exponent_mono:
  assumes "a \<le> a'"
  shows "exponent a \<le> exponent a'"
proof (rule ccontr)
  assume "\<not> exponent a \<le> exponent a'"
  then have gt: "exponent a' < exponent a" by simp
  then have "exponent a \<noteq> - 1022" "exponent a' \<noteq> 1023"
    using exponent_range(1) [of a'] exponent_range(2) [of a] by simp_all
  then have lo: "2 powi exponent a \<le> a" and hi: "a' < 2 powi (exponent a' + 1)"
    using exponent_lower [of a] exponent_upper [of a'] by simp_all
  have "(2::real) powi (exponent a' + 1) \<le> 2 powi exponent a"
    using gt by (intro power_int_increasing) simp_all
  with lo hi assms show False by simp
qed

lemma ulp_scale:
  "(2::real) powi (e + 1) = 2 ^ 53 * 2 powi (e - 52)"
  "(2::real) powi e = 2 ^ 52 * 2 powi (e - 52)"
proof -
  have "(2::real) powi (53 + (e - 52)) = 2 powi 53 * 2 powi (e - 52)"
    by (rule power_int_add) simp
  moreover have "53 + (e - 52) = e + 1" by simp
  ultimately have "(2::real) powi (e + 1) = 2 powi 53 * 2 powi (e - 52)" by (simp only:)
  then show "(2::real) powi (e + 1) = 2 ^ 53 * 2 powi (e - 52)" by simp
  have "(2::real) powi (52 + (e - 52)) = 2 powi 52 * 2 powi (e - 52)"
    by (rule power_int_add) simp
  then show "(2::real) powi e = 2 ^ 52 * 2 powi (e - 52)" by simp
qed

lemma round_pos_cases: "round_pos a = PInf \<or> (\<exists>v. round_pos a = Fin v)"
  unfolding round_pos_def Let_def by (rule if_split [THEN iffD2]) blast

lemma round_pos_nonneg:
  assumes "0 \<le> a" and "round_pos a = Fin v"
  shows "0 \<le> v"
proof -
  define e where "e = exponent a"
  define u :: real where "u = 2 powi (e - 52)"
  define n where "n = round_half_even (a / u)"
  have u: "0 < u" by (simp add: u_def)
  have r: "round_pos a = (if e = 1023 \<and> 2 ^ 53 \<le> n then PInf else Fin (of_int n * u))"
    by (simp only: round_pos_def Let_def e_def u_def n_def)
  have "of_int 0 \<le> a / u" using assms(1) u by simp
  then have "0 \<le> n" unfolding n_def by (rule round_half_even_ge)
  then have "0 \<le> of_int n * u" using u by simp
  moreover have "v = of_int n * u"
    using assms(2) unfolding r by (simp split: if_splits)
  ultimately show ?thesis by simp
qed

lemma round_pos_mono:
  assumes "a \<le> a'"
  shows "fle (round_pos a) (round_pos a')"
proof -
  define e where "e = exponent a"
  define e' where "e' = exponent a'"
  define u :: real where "u = 2 powi (e - 52)"
  define u' :: real where "u' = 2 powi (e' - 52)"
  define n where "n = round_half_even (a / u)"
  define n' where "n' = round_half_even (a' / u')"
  have u: "0 < u" and u': "0 < u'" by (simp_all add: u_def u'_def)
  have ee: "e \<le> e'" unfolding e_def e'_def by (rule exponent_mono [OF assms])
  have r: "round_pos a = (if e = 1023 \<and> 2 ^ 53 \<le> n then PInf else Fin (of_int n * u))"
    by (simp only: round_pos_def Let_def e_def u_def n_def)
  have r': "round_pos a' = (if e' = 1023 \<and> 2 ^ 53 \<le> n' then PInf else Fin (of_int n' * u'))"
    by (simp only: round_pos_def Let_def e'_def u'_def n'_def)
  show ?thesis
  proof (cases "e = e'")
    case True
    then have uu: "u' = u" by (simp add: u_def u'_def)
    have "a / u \<le> a' / u" using assms u by (simp add: divide_right_mono)
    then have nn: "n \<le> n'" unfolding n_def n'_def uu by (rule round_half_even_mono)
    then have "of_int n * u \<le> of_int n' * u" using u by simp
    then show ?thesis using nn True by (auto simp: r r' uu)
  next
    case False
    with ee have lt: "e < e'" by simp
    have "e' \<le> 1023" unfolding e'_def by (rule exponent_range(2))
    with lt have ne: "e \<noteq> 1023" by simp
    then have "a < 2 powi (e + 1)" using exponent_upper [of a] by (simp add: e_def)
    then have "a < 2 ^ 53 * u" by (simp add: ulp_scale(1) u_def)
    then have "a / u \<le> of_int (2 ^ 53)" using u by (simp add: pos_divide_le_eq)
    then have "n \<le> 2 ^ 53" unfolding n_def by (rule round_half_even_le)
    then have "of_int n * u \<le> of_int (2 ^ 53) * u" using u 
      by (intro mult_right_mono) (simp_all del: of_int_power of_int_numeral)
    then have low: "of_int n * u \<le> 2 powi (e + 1)" by (simp add: ulp_scale(1) u_def)
    have step: "(2::real) powi (e + 1) \<le> 2 powi e'"
      using lt by (intro power_int_increasing) simp_all
    have "- 1022 \<le> e" unfolding e_def by (rule exponent_range(1))
    with lt have "e' \<noteq> - 1022" by simp
    then have "2 powi e' \<le> a'" using exponent_lower [of a'] by (simp add: e'_def)
    then have "2 ^ 52 * u' \<le> a'" by (simp add: ulp_scale(2) [of e'] u'_def)
    then have "of_int (2 ^ 52) \<le> a' / u'" using u' by (simp add: pos_le_divide_eq)
    then have "2 ^ 52 \<le> n'" unfolding n'_def by (rule round_half_even_ge)
    then have "of_int (2 ^ 52) * u' \<le> of_int n' * u'" using u' 
      by (intro mult_right_mono) (simp_all del: of_int_power of_int_numeral)
    then have high: "2 powi e' \<le> of_int n' * u'" by (simp add: ulp_scale(2) [of e'] u'_def)
    from low step high have "of_int n * u \<le> of_int n' * u'" by simp
    then show ?thesis using ne by (auto simp: r r')
  qed
qed

lemma fle_fneg: "fle x y \<Longrightarrow> fle (fneg y) (fneg x)"
  by (cases x; cases y) auto

lemma round_double_cases:
  "round_double x = PInf \<or> round_double x = NInf \<or> (\<exists>v. round_double x = Fin v)"
  using round_pos_cases [of x] round_pos_cases [of "- x"]
  by (auto simp: round_double_def)

lemma round_double_not_NaN [simp]: "round_double x \<noteq> NaN"
  using round_double_cases [of x] by auto

lemma round_double_zero [simp]: "round_double 0 = Fin 0"
  by (simp add: round_double_def)

lemma round_pos_ge_zero: "0 \<le> a \<Longrightarrow> fle (Fin 0) (round_pos a)"
  using round_pos_cases [of a] round_pos_nonneg [of a] by auto

lemma round_double_mono:
  assumes "x \<le> y"
  shows "fle (round_double x) (round_double y)"
proof -
  consider "x < 0" "y < 0" | "x < 0" "y = 0" | "x < 0" "0 < y" | "x = 0" "y = 0"
    | "x = 0" "0 < y" | "0 < x" "0 < y"
    using assms by linarith
  then show ?thesis
  proof cases
    case 1
    have "fle (round_pos (- y)) (round_pos (- x))"
      using assms by (intro round_pos_mono) simp
    then show ?thesis using 1 by (simp add: round_double_def fle_fneg)
  next
    case 2
    have "fle (Fin 0) (round_pos (- x))" using 2 by (intro round_pos_ge_zero) simp
    then have "fle (fneg (round_pos (- x))) (fneg (Fin 0))" by (rule fle_fneg)
    then show ?thesis using 2 by (simp add: round_double_def)
  next
    case 3
    have "fle (Fin 0) (round_pos (- x))" using 3 by (intro round_pos_ge_zero) simp
    then have a: "fle (fneg (round_pos (- x))) (Fin 0)" using fle_fneg by fastforce
    have b: "fle (Fin 0) (round_pos y)" using 3 by (intro round_pos_ge_zero) simp
    have "fle (fneg (round_pos (- x))) (round_pos y)"
      using a b by (cases "round_pos (- x)"; cases "round_pos y") auto
    then show ?thesis using 3 by (simp add: round_double_def)
  next
    case 4
    then show ?thesis by simp
  next
    case 5
    have "fle (Fin 0) (round_pos y)" using 5 by (intro round_pos_ge_zero) simp
    then show ?thesis using 5 by (simp add: round_double_def)
  next
    case 6
    have "fle (round_pos x) (round_pos y)" using assms by (rule round_pos_mono)
    then show ?thesis using 6 by (simp add: round_double_def)
  qed
qed

subsection \<open>The minimum of a series and its first position\<close>

lemma series_min_NaN_iff: "series_min xs = NaN \<longleftrightarrow> (\<forall>x\<in>set xs. x = NaN)"
  by (induction xs) (auto simp: Let_def)

lemma series_min_mem: "series_min xs \<noteq> NaN \<Longrightarrow> series_min xs \<in> set xs"
  by (induction xs) (auto simp: Let_def)

lemma series_min_le: "x \<in> set xs \<Longrightarrow> x \<noteq> NaN \<Longrightarrow> fle (series_min xs) x"
proof (induction xs)
  case Nil
  then show ?case by simp
next
  case (Cons y ys)
  show ?case
  proof (cases "series_min ys = NaN")
    case True
    with Cons.prems show ?thesis
      by (auto simp: Let_def series_min_NaN_iff)
  next
    case False
    with Cons show ?thesis
      apply (auto simp: Let_def flt_fle)
      apply (meson not_flt_fle fle_trans)
      done
  qed
qed

lemma series_min_eqI:
  assumes "m \<in> set xs" "m \<noteq> NaN" "\<And>x. x \<in> set xs \<Longrightarrow> x \<noteq> NaN \<Longrightarrow> fle m x"
  shows "series_min xs = m"
proof -
  have ne: "series_min xs \<noteq> NaN"
    using assms(1,2) by (auto simp: series_min_NaN_iff)
  have "fle (series_min xs) m"
    using assms(1,2) by (rule series_min_le)
  moreover have "fle m (series_min xs)"
    using assms(3) series_min_mem [OF ne] ne by blast
  ultimately show ?thesis by (rule fle_antisym)
qed

lemma first_hit:
  assumes "\<exists>x\<in>set xs. f x = m"
  shows "length (takeWhile (\<lambda>v. v \<noteq> m) (map f xs)) < length xs"
    and "f (xs ! length (takeWhile (\<lambda>v. v \<noteq> m) (map f xs))) = m"
  using assms by (induction xs) auto

subsection \<open>The bottleneck column never fails\<close>

lemma py_div_pos: "flt (Fin 0) y \<Longrightarrow> \<exists>v. py_div x y = Inr v"
  by (cases y; cases x) auto

lemma max_cases_by_item_ratio: "max_cases_by_item r = Inr (item_ratio r)"
  using py_div_pos [of "Per_Case r" "On_Hand r"]
  by (auto simp: max_cases_by_item_def item_ratio_def float_quotient_def)

lemma apply_rows_ratio: "apply_rows max_cases_by_item df = Inr (map item_ratio df)"
  by (induction df) (simp_all add: max_cases_by_item_ratio)

lemma find_bottleneck_unfold:
  "find_bottleneck df =
     (if \<exists>r\<in>set df. flt (Fin 0) (Per_Case r) then
        (case math_floor (series_min (map item_ratio df)) of
           Inl e \<Rightarrow> Inl e
         | Inr ms \<Rightarrow>
             (case idxmin (map item_ratio df) of
                None \<Rightarrow> Inl ValueError
              | Some i \<Rightarrow>
                  Inr (ms,
                    Some \<lparr>Item = Component (df ! i), Item_UOM = UOM (df ! i),
                          Item_On_Hand = On_Hand (df ! i), Item_Per_Case = Per_Case (df ! i),
                          MaxCasesByItem = map item_ratio df ! i\<rparr>)))
      else Inr (0, None))"
  by (auto simp: find_bottleneck_def apply_rows_ratio filter_empty_conv Let_def
      split: sum.splits option.splits)

lemma math_floor_not_zero_division: "math_floor x \<noteq> Inl ZeroDivisionError"
  by (cases x) auto

lemma find_bottleneck_not_zero_division: "find_bottleneck df \<noteq> Inl ZeroDivisionError"
  using math_floor_not_zero_division [of "series_min (map item_ratio df)"]
  by (auto simp: find_bottleneck_unfold split: sum.splits option.splits)

subsection \<open>The bottleneck branch in closed form\<close>

lemma first_at_hit:
  assumes "m \<in> set (map item_ratio df)"
  shows "first_at m df \<in> set df" and "item_ratio (first_at m df) = m"
proof -
  from assms have ex: "\<exists>x\<in>set df. item_ratio x = m" by auto
  show "first_at m df \<in> set df"
    unfolding first_at_def using first_hit(1) [OF ex] by simp
  show "item_ratio (first_at m df) = m"
    unfolding first_at_def using first_hit(2) [OF ex] .
qed

lemma find_bottleneck_canon:
  "find_bottleneck df =
     (if \<exists>r\<in>set df. flt (Fin 0) (Per_Case r) then
        (case series_min (map item_ratio df) of
           Fin q \<Rightarrow> Inr (\<lfloor>q\<rfloor>, Some (info_of (first_at (Fin q) df)))
         | NaN \<Rightarrow> Inl ValueError
         | PInf \<Rightarrow> Inl OverflowError
         | NInf \<Rightarrow> Inl OverflowError)
      else Inr (0, None))"
proof (cases "series_min (map item_ratio df)")
  case (Fin q)
  then have mem: "Fin q \<in> set (map item_ratio df)"
    using series_min_mem [of "map item_ratio df"] by simp
  then have ex: "\<exists>x\<in>set df. item_ratio x = Fin q" by auto
  have lt: "length (takeWhile (\<lambda>v. v \<noteq> Fin q) (map item_ratio df)) < length df"
    using first_hit(1) [OF ex] .
  show ?thesis
    using Fin lt
    by (simp add: find_bottleneck_unfold idxmin_def info_of_def first_at_def)
qed (simp_all add: find_bottleneck_unfold idxmin_def)

subsection \<open>The merged frame\<close>

lemma numeric_not_NaN [simp]: "numeric c \<noteq> NaN"
  by (simp add: numeric_def fillna_def)

lemma numeric_finite: "finite_cell c \<Longrightarrow> \<exists>a. numeric c = Fin a"
  by (cases c; cases "to_numeric c")
     (auto simp: numeric_def fillna_def to_numeric_def finite_cell_def)

lemma with_on_hand_Nil [simp]: "with_on_hand [] H = []"
  by (cases H) (simp_all add: with_on_hand_def merge_left_def)

lemma with_on_hand_append:
  "with_on_hand (xs @ ys) H = with_on_hand xs H @ with_on_hand ys H"
  by (cases H) (simp_all add: with_on_hand_def merge_left_def)

lemma merge_row_cells:
  "merge_row oh (nm, p, u) = map (\<lambda>q. (nm, p, u, q)) (on_hand_cells (Some oh) nm)"
  by (cases "filter (\<lambda>e. fst e = nm) oh")
     (simp_all add: merge_row_def on_hand_cells_def)

lemma with_on_hand_single:
  "with_on_hand [(nm, p, u)] H = map (\<lambda>q. (nm, p, u, q)) (on_hand_cells H nm)"
proof (cases H)
  case None
  then show ?thesis by (simp add: with_on_hand_def on_hand_cells_def)
next
  case (Some oh)
  then show ?thesis by (simp add: with_on_hand_def merge_left_def merge_row_cells)
qed

lemma build_df_Nil [simp]: "build_df [] H n = []"
  by (simp add: build_df_def)

lemma build_df_append: "build_df (xs @ ys) H n = build_df xs H n @ build_df ys H n"
  by (simp add: build_df_def with_on_hand_append)

lemma build_df_Cons: "build_df (c # cs) H n = build_df [c] H n @ build_df cs H n"
  using build_df_append [of "[c]" cs H n] by simp

lemma build_df_single:
  "build_df [(nm, p, u)] H n = map (\<lambda>q. make_row n (nm, p, u, q)) (on_hand_cells H nm)"
  by (simp add: build_df_def with_on_hand_single comp_def)

lemma on_hand_cells_not_Nil [simp]: "on_hand_cells H nm \<noteq> []"
  by (cases H) (simp_all add: on_hand_cells_def)

lemma length_on_hand_cells: "length (on_hand_cells H nm) = copies H nm"
  by (cases H) (auto simp: on_hand_cells_def copies_def max_def Suc_le_eq)

lemma build_df_single_not_Nil [simp]: "build_df [c] H n \<noteq> []"
  by (cases c) (simp add: build_df_single)

text \<open>Every row of one component carries its name, its unit and its coerced rate.\<close>

lemma make_row_fields [simp]:
  "Component (make_row n (nm, p, u, q)) = nm"
  "UOM (make_row n (nm, p, u, q)) = u"
  "Per_Case (make_row n (nm, p, u, q)) = numeric p"
  "On_Hand (make_row n (nm, p, u, q)) = numeric q"
  "Required (make_row n (nm, p, u, q)) = fmul (numeric p) (Fin n)"
  "Remaining (make_row n (nm, p, u, q)) = fsub (numeric q) (fmul (numeric p) (Fin n))"
  by (simp_all add: make_row_def Let_def)

lemma build_df_single_fields:
  assumes "r \<in> set (build_df [c] H n)"
  shows "Component r = fst c" and "UOM r = snd (snd c)" and "Per_Case r = rate c"
    and "Required r = fmul (rate c) (Fin n)"
    and "Remaining r = fsub (On_Hand r) (Required r)"
    and "On_Hand r \<noteq> NaN"
proof -
  obtain nm p u where c: "c = (nm, p, u)" by (cases c)
  from assms obtain q where r: "r = make_row n (nm, p, u, q)"
    by (auto simp: c build_df_single)
  show "Component r = fst c" "UOM r = snd (snd c)" "Per_Case r = rate c"
    "Required r = fmul (rate c) (Fin n)" "Remaining r = fsub (On_Hand r) (Required r)"
    "On_Hand r \<noteq> NaN"
    by (simp_all add: r c rate_def)
qed

lemma build_df_mem:
  "r \<in> set (build_df cs H n) \<longleftrightarrow> (\<exists>c\<in>set cs. r \<in> set (build_df [c] H n))"
proof (induction cs)
  case Nil
  show ?case by simp
next
  case (Cons c cs)
  show ?case
    using Cons.IH by (simp add: build_df_Cons [of c cs])
qed

lemma candidates_iff:
  "(\<exists>r\<in>set (build_df cs H n). flt (Fin 0) (Per_Case r)) \<longleftrightarrow>
   (\<exists>c\<in>set cs. flt (Fin 0) (rate c))"
proof
  assume "\<exists>r\<in>set (build_df cs H n). flt (Fin 0) (Per_Case r)"
  then obtain r c where "c \<in> set cs" "r \<in> set (build_df [c] H n)" "flt (Fin 0) (Per_Case r)"
    using build_df_mem [of _ cs H n] by blast
  then show "\<exists>c\<in>set cs. flt (Fin 0) (rate c)"
    using build_df_single_fields(3) [of r c H n] by auto
next
  assume "\<exists>c\<in>set cs. flt (Fin 0) (rate c)"
  then obtain c where c: "c \<in> set cs" "flt (Fin 0) (rate c)" by blast
  obtain r where r: "r \<in> set (build_df [c] H n)"
    using build_df_single_not_Nil [of c H n] by (cases "build_df [c] H n") auto
  then have "flt (Fin 0) (Per_Case r)"
    using c(2) build_df_single_fields(3) [of r c H n] by simp
  with c(1) r show "\<exists>r\<in>set (build_df cs H n). flt (Fin 0) (Per_Case r)"
    using build_df_mem [of r cs H n] by blast
qed

subsection \<open>The locals in closed form\<close>

lemma compute_locals_closed:
  "compute_locals cs H n =
     (case find_bottleneck (build_df cs H n) of
        Inl e \<Rightarrow> Inl e
      | Inr mb \<Rightarrow>
          Inr \<lparr>display = sort_key Component (build_df cs H n),
               max_sellable = fst mb,
               shortages = filter (\<lambda>r. flt (Remaining r) (Fin 0)) (build_df cs H n),
               bottleneck_of = snd mb\<rparr>)"
  by (simp add: compute_locals_def Let_def split: sum.splits prod.splits)

subsection \<open>The row selected by the first minimum\<close>

lemma first_at_Cons:
  "first_at m (x # xs) = (if item_ratio x = m then x else first_at m xs)"
  by (simp add: first_at_def)

lemma first_at_skip:
  "\<forall>x\<in>set ys. item_ratio x \<noteq> m \<Longrightarrow> first_at m (ys @ zs) = first_at m zs"
  by (induction ys) (simp_all add: first_at_Cons)

lemma first_at_take:
  "\<exists>x\<in>set ys. item_ratio x = m \<Longrightarrow> first_at m (ys @ zs) = first_at m ys"
  by (induction ys) (auto simp: first_at_Cons)

lemma first_at_filter:
  assumes "\<exists>x\<in>set df. item_ratio x = m" and "\<forall>x\<in>set df. item_ratio x = m \<longrightarrow> P x"
  shows "first_at m (filter P df) = first_at m df"
  using assms by (induction df) (auto simp: first_at_Cons)

lemma item_ratio_Fin_positive: "item_ratio r = Fin q \<Longrightarrow> flt (Fin 0) (Per_Case r)"
  by (auto simp: item_ratio_def split: if_splits)

text \<open>The row \<open>idxmin\<close> selects belongs to the first component that has a row at the
  minimum.\<close>

lemma first_at_component:
  assumes "Fin q \<in> set (map item_ratio (build_df cs H n))"
  shows "\<exists>cs1 c cs2. cs = cs1 @ c # cs2
           \<and> first_at (Fin q) (build_df cs H n) \<in> set (build_df [c] H n)
           \<and> (\<forall>r\<in>set (build_df cs1 H n). item_ratio r \<noteq> Fin q)"
proof -
  let ?P = "\<lambda>c. \<exists>r\<in>set (build_df [c] H n). item_ratio r = Fin q"
  from assms obtain r where "r \<in> set (build_df cs H n)" "item_ratio r = Fin q" by auto
  then have "\<exists>c\<in>set cs. ?P c"
    using build_df_mem [of r cs H n] by blast
  then obtain cs1 c cs2 where split: "cs = cs1 @ c # cs2" "?P c" "\<forall>c'\<in>set cs1. \<not> ?P c'"
    using split_list_first_prop [of cs ?P] by blast
  have none: "\<forall>r\<in>set (build_df cs1 H n). item_ratio r \<noteq> Fin q"
  proof
    fix r assume "r \<in> set (build_df cs1 H n)"
    then obtain c' where "c' \<in> set cs1" "r \<in> set (build_df [c'] H n)"
      using build_df_mem [of r cs1 H n] by blast
    with split(3) show "item_ratio r \<noteq> Fin q" by blast
  qed
  have df: "build_df cs H n = build_df cs1 H n @ build_df [c] H n @ build_df cs2 H n"
    using build_df_append [of cs1 "c # cs2" H n] build_df_Cons [of c cs2 H n]
    by (simp add: split(1))
  have "first_at (Fin q) (build_df cs H n) = first_at (Fin q) (build_df [c] H n)"
    unfolding df using first_at_skip [OF none] first_at_take [OF split(2)] by simp
  moreover have "first_at (Fin q) (build_df [c] H n) \<in> set (build_df [c] H n)"
    using split(2) by (intro first_at_hit(1)) force
  ultimately have "cs = cs1 @ c # cs2
      \<and> first_at (Fin q) (build_df cs H n) \<in> set (build_df [c] H n)
      \<and> (\<forall>r\<in>set (build_df cs1 H n). item_ratio r \<noteq> Fin q)"
    using split(1) none by simp
  then show ?thesis by blast
qed

subsection \<open>Dropping the components of rate zero\<close>

lemma build_df_single_filter:
  "filter (\<lambda>r. Per_Case r \<noteq> Fin 0) (build_df [c] H n) =
     (if rate c \<noteq> Fin 0 then build_df [c] H n else [])"
proof -
  have "\<forall>r\<in>set (build_df [c] H n). Per_Case r = rate c"
    using build_df_single_fields(3) by blast
  then show ?thesis by (auto simp: filter_empty_conv filter_id_conv)
qed

lemma build_df_filter:
  "build_df (filter (\<lambda>c. rate c \<noteq> Fin 0) cs) H n =
     filter (\<lambda>r. Per_Case r \<noteq> Fin 0) (build_df cs H n)"
proof (induction cs)
  case Nil
  show ?case by simp
next
  case (Cons c cs)
  show ?case
  proof (cases "rate c \<noteq> Fin 0")
    case True
    then have "build_df (filter (\<lambda>c. rate c \<noteq> Fin 0) (c # cs)) H n =
        build_df [c] H n @ build_df (filter (\<lambda>c. rate c \<noteq> Fin 0) cs) H n"
      using build_df_Cons [of c "filter (\<lambda>c. rate c \<noteq> Fin 0) cs" H n] by simp
    then show ?thesis
      using True Cons.IH build_df_single_filter [of c H n]
      by (simp add: build_df_Cons [of c cs])
  next
    case False
    then show ?thesis
      using Cons.IH build_df_single_filter [of c H n]
      by (simp add: build_df_Cons [of c cs])
  qed
qed

lemma find_bottleneck_filter:
  assumes "find_bottleneck df = Inr mb"
  shows "find_bottleneck (filter (\<lambda>r. Per_Case r \<noteq> Fin 0) df) = Inr mb"
proof (cases "\<exists>r\<in>set df. flt (Fin 0) (Per_Case r)")
  case False
  then have "\<not> (\<exists>r\<in>set (filter (\<lambda>r. Per_Case r \<noteq> Fin 0) df). flt (Fin 0) (Per_Case r))"
    by auto
  with False assms show ?thesis by (simp add: find_bottleneck_canon)
next
  case True
  define df' where "df' = filter (\<lambda>r. Per_Case r \<noteq> Fin 0) df"
  from assms True obtain q where q: "series_min (map item_ratio df) = Fin q"
    by (cases "series_min (map item_ratio df)") (simp_all add: find_bottleneck_canon)
  then have mem: "Fin q \<in> set (map item_ratio df)"
    using series_min_mem [of "map item_ratio df"] by simp
  have keep: "\<forall>x\<in>set df. item_ratio x = Fin q \<longrightarrow> Per_Case x \<noteq> Fin 0"
    using item_ratio_Fin_positive by fastforce
  from mem obtain r where r: "r \<in> set df" "item_ratio r = Fin q" by auto
  with keep have r': "r \<in> set df'" by (simp add: df'_def)
  have cand': "\<exists>r\<in>set df'. flt (Fin 0) (Per_Case r)"
    using r' item_ratio_Fin_positive [OF r(2)] by blast
  have smin': "series_min (map item_ratio df') = Fin q"
  proof (rule series_min_eqI)
    show "Fin q \<in> set (map item_ratio df')" using r' r(2) by force
    show "Fin q \<noteq> NaN" by simp
    fix x assume "x \<in> set (map item_ratio df')" "x \<noteq> NaN"
    then have "x \<in> set (map item_ratio df)" by (auto simp: df'_def)
    then show "fle (Fin q) x"
      using series_min_le [of x "map item_ratio df"] \<open>x \<noteq> NaN\<close> q by simp
  qed
  have first: "first_at (Fin q) df' = first_at (Fin q) df"
    unfolding df'_def using r keep by (intro first_at_filter) auto
  show ?thesis
    using assms True q cand' smin' first
    by (simp add: find_bottleneck_canon df'_def [symmetric])
qed

subsection \<open>Changing the order size\<close>

lemma insort_key_map:
  "insort_key f (g x) (map g xs) = map g (insort_key (\<lambda>y. f (g y)) x xs)"
  by (induction xs) simp_all

lemma sort_key_map: "sort_key f (map g xs) = map g (sort_key (\<lambda>y. f (g y)) xs)"
  by (induction xs) (simp_all add: insort_key_map)

lemma Component_make_row: "Component (make_row n z) = fst z"
  by (cases z) simp

lemma display_rows:
  "sort_key Component (build_df cs H n) =
     map (make_row n) (sort_key fst (with_on_hand cs H))"
  by (simp add: build_df_def sort_key_map Component_make_row)

lemma item_ratio_make_row: "item_ratio (make_row n1 z) = item_ratio (make_row n2 z)"
  by (cases z) (simp add: item_ratio_def float_quotient_def)

lemma info_of_make_row: "info_of (make_row n1 z) = info_of (make_row n2 z)"
  by (cases z) (simp add: info_of_def item_ratio_def float_quotient_def)

lemma info_of_first_at_map:
  "info_of (first_at v (map (make_row n1) zs)) = info_of (first_at v (map (make_row n2) zs))"
proof (induction zs)
  case Nil
  show ?case by simp
next
  case (Cons z zs)
  show ?case
    using Cons.IH item_ratio_make_row [of n1 z n2] info_of_make_row [of n1 z n2]
    by (simp add: first_at_Cons)
qed

text \<open>The bottleneck branch does not depend on the order size.\<close>

lemma find_bottleneck_order_size:
  "find_bottleneck (build_df cs H n1) = find_bottleneck (build_df cs H n2)"
proof -
  have ratios: "map item_ratio (build_df cs H n1) = map item_ratio (build_df cs H n2)"
    using item_ratio_make_row [of n1 _ n2] by (simp add: build_df_def)
  have "Per_Case (make_row n1 z) = Per_Case (make_row n2 z)" for z
    by (cases z) simp
  then have cand: "(\<exists>r\<in>set (build_df cs H n1). flt (Fin 0) (Per_Case r)) \<longleftrightarrow>
      (\<exists>r\<in>set (build_df cs H n2). flt (Fin 0) (Per_Case r))"
    by (simp add: build_df_def)
  have info: "info_of (first_at v (build_df cs H n1)) = info_of (first_at v (build_df cs H n2))"
    for v
    unfolding build_df_def by (rule info_of_first_at_map)
  show ?thesis
    by (simp add: find_bottleneck_canon ratios cand info split: fl.splits)
qed

lemma merged_rate:
  assumes "z \<in> set (with_on_hand cs H)"
  shows "\<exists>c\<in>set cs. numeric (fst (snd z)) = rate c"
proof -
  have "make_row 0 z \<in> set (build_df cs H 0)"
    using assms by (simp add: build_df_def)
  then obtain c where c: "c \<in> set cs" "make_row 0 z \<in> set (build_df [c] H 0)"
    using build_df_mem [of "make_row 0 z" cs H 0] by blast
  have "Per_Case (make_row 0 z) = rate c" by (rule build_df_single_fields(3) [OF c(2)])
  then show ?thesis using c(1) by (cases z) auto
qed

subsection \<open>Rows of the left merge\<close>

lemma build_df_single_proj:
  "map (\<lambda>r. (Component r, UOM r, Per_Case r)) (build_df [c] H n) =
     replicate (copies H (fst c)) (fst c, snd (snd c), rate c)"
proof -
  obtain nm p u where c: "c = (nm, p, u)" by (cases c)
  show ?thesis
    by (simp add: c build_df_single comp_def rate_def map_replicate_const
        length_on_hand_cells)
qed

lemma build_df_proj:
  "map (\<lambda>r. (Component r, UOM r, Per_Case r)) (build_df cs H n) =
     concat (map (\<lambda>c. replicate (copies H (fst c)) (fst c, snd (snd c), rate c)) cs)"
proof (induction cs)
  case Nil
  show ?case by simp
next
  case (Cons c cs)
  show ?case
    using Cons.IH build_df_single_proj [of c H n]
    by (simp add: build_df_Cons [of c cs])
qed

lemma copies_absent: "nm \<notin> onhand_names H \<Longrightarrow> copies H nm = 1"
proof (cases H)
  case None
  then show ?thesis by (simp add: copies_def)
next
  case (Some oh)
  assume "nm \<notin> onhand_names H"
  then have "filter (\<lambda>e. fst e = nm) oh = []"
    by (auto simp: Some onhand_names_def filter_empty_conv)
  then show ?thesis by (simp add: Some copies_def)
qed

lemma on_hand_absent:
  assumes "r \<in> set (build_df cs H n)" and "Component r \<notin> onhand_names H"
  shows "On_Hand r = Fin 0"
proof -
  from assms(1) obtain c where c: "c \<in> set cs" "r \<in> set (build_df [c] H n)"
    using build_df_mem [of r cs H n] by blast
  obtain nm p u where cp: "c = (nm, p, u)" by (cases c)
  from c(2) obtain q where q: "q \<in> set (on_hand_cells H nm)" "r = make_row n (nm, p, u, q)"
    by (auto simp: cp build_df_single)
  from assms(2) q(2) have "nm \<notin> onhand_names H" by simp
  then have "on_hand_cells H nm = [Num (Fin 0)] \<or> on_hand_cells H nm = [Num NaN]"
    by (cases H) (auto simp: on_hand_cells_def onhand_names_def filter_empty_conv)
  with q show ?thesis
    by (auto simp: numeric_def fillna_def to_numeric_def)
qed

lemma compute_results_display:
  assumes "compute_results cs H n = Inr (d, m, s)"
  shows "d = sort_key Component (build_df cs H n)"
    and "s = filter (\<lambda>r. flt (Remaining r) (Fin 0)) (build_df cs H n)"
  using assms
  by (auto simp: compute_results_def compute_locals_closed split: sum.splits)

lemma on_hand_of_name:
  assumes "nm \<in> fst ` set oh"
  shows "map On_Hand (filter (\<lambda>r. Component r = nm) (build_df cs (Some oh) n)) =
     concat (map (\<lambda>c. map (\<lambda>e. numeric (snd e)) (filter (\<lambda>e. fst e = nm) oh))
               (filter (\<lambda>c. fst c = nm) cs))"
proof (induction cs)
  case Nil
  show ?case by simp
next
  case (Cons c cs)
  obtain nm' p u where c: "c = (nm', p, u)" by (cases c)
  have ne: "filter (\<lambda>e. fst e = nm) oh \<noteq> []"
    using assms by (auto simp: filter_empty_conv)
  have single: "map On_Hand (filter (\<lambda>r. Component r = nm) (build_df [c] (Some oh) n)) =
      (if fst c = nm then map (\<lambda>e. numeric (snd e)) (filter (\<lambda>e. fst e = nm) oh) else [])"
    using ne by (simp add: c build_df_single on_hand_cells_def comp_def filter_map)
  have "build_df (c # cs) (Some oh) n = build_df [c] (Some oh) n @ build_df cs (Some oh) n"
    by (rule build_df_Cons)
  then show ?case
    using Cons.IH single by simp
qed

subsection \<open>Cells that coerce to zero\<close>

lemma numeric_zero_filled [simp]: "numeric (zero_filled c) = numeric c"
  by (cases c) (auto simp: zero_filled_def numeric_def fillna_def to_numeric_def)

lemma on_hand_cells_zero_filled:
  "map numeric (on_hand_cells (zero_filled_onhand H) nm) = map numeric (on_hand_cells H nm)"
proof (cases H)
  case None
  then show ?thesis by (simp add: zero_filled_onhand_def on_hand_cells_def)
next
  case (Some oh)
  let ?g = "\<lambda>e. case e of (nm, q) \<Rightarrow> (nm, zero_filled q)"
  have keep: "(\<lambda>e. fst e = nm) \<circ> ?g = (\<lambda>e. fst e = nm)"
    by (auto simp: fun_eq_iff)
  have flt: "filter (\<lambda>e. fst e = nm) (map ?g oh) = map ?g (filter (\<lambda>e. fst e = nm) oh)"
    by (simp add: filter_map keep)
  have cells: "map numeric (map snd (map ?g xs)) = map numeric (map snd xs)" for xs
    by (induction xs) auto
  show ?thesis
    using cells [of "filter (\<lambda>e. fst e = nm) oh"]
    by (simp add: Some zero_filled_onhand_def on_hand_cells_def flt
        numeric_def fillna_def to_numeric_def)
qed

lemma rows_from_values:
  "map (\<lambda>q. make_row n (nm, p, u, q)) cells =
     map (\<lambda>v. \<lparr>Component = nm, UOM = u, On_Hand = v, Per_Case = numeric p,
                Required = fmul (numeric p) (Fin n),
                Remaining = fsub v (fmul (numeric p) (Fin n))\<rparr>) (map numeric cells)"
  by (simp add: make_row_def Let_def comp_def)

lemma build_df_zero_filled:
  "build_df (zero_filled_components cs) (zero_filled_onhand H) n = build_df cs H n"
proof (induction cs)
  case Nil
  show ?case by (simp add: zero_filled_components_def)
next
  case (Cons c cs)
  obtain nm p u where c: "c = (nm, p, u)" by (cases c)
  have single: "build_df [(nm, zero_filled p, u)] (zero_filled_onhand H) n = build_df [c] H n"
    by (simp only: c build_df_single rows_from_values on_hand_cells_zero_filled
        numeric_zero_filled)
  have "build_df (zero_filled_components (c # cs)) (zero_filled_onhand H) n =
      build_df [(nm, zero_filled p, u)] (zero_filled_onhand H) n @
      build_df (zero_filled_components cs) (zero_filled_onhand H) n"
    using build_df_Cons [of "(nm, zero_filled p, u)" "zero_filled_components cs"]
    by (simp add: zero_filled_components_def c)
  then show ?case
    using Cons.IH single build_df_Cons [of c cs H n] by simp
qed

subsection \<open>The least quotient of the rows with a positive rate\<close>

lemma series_min_candidates:
  "series_min (map item_ratio df) = Fin q \<longleftrightarrow>
   series_min (map float_quotient (filter (\<lambda>r. flt (Fin 0) (Per_Case r)) df)) = Fin q"
proof
  let ?cand = "\<lambda>r. flt (Fin 0) (Per_Case r)"
  assume m: "series_min (map item_ratio df) = Fin q"
  then have "Fin q \<in> set (map item_ratio df)"
    using series_min_mem [of "map item_ratio df"] by simp
  then obtain r where r: "r \<in> set df" "item_ratio r = Fin q" by auto
  then have rc: "?cand r" "float_quotient r = Fin q"
    by (auto simp: item_ratio_def split: if_splits)
  show "series_min (map float_quotient (filter ?cand df)) = Fin q"
  proof (rule series_min_eqI)
    show "Fin q \<in> set (map float_quotient (filter ?cand df))"
      using r(1) rc by force
    show "Fin q \<noteq> NaN" by simp
    fix x assume x: "x \<in> set (map float_quotient (filter ?cand df))" "x \<noteq> NaN"
    then obtain r' where "r' \<in> set df" "?cand r'" "x = float_quotient r'" by auto
    then have "x \<in> set (map item_ratio df)" by (force simp: item_ratio_def)
    then show "fle (Fin q) x"
      using series_min_le [of x "map item_ratio df"] x(2) m by simp
  qed
next
  let ?cand = "\<lambda>r. flt (Fin 0) (Per_Case r)"
  assume m: "series_min (map float_quotient (filter ?cand df)) = Fin q"
  then have "Fin q \<in> set (map float_quotient (filter ?cand df))"
    using series_min_mem [of "map float_quotient (filter ?cand df)"] by simp
  then obtain r where r: "r \<in> set df" "?cand r" "float_quotient r = Fin q" by auto
  show "series_min (map item_ratio df) = Fin q"
  proof (rule series_min_eqI)
    show "Fin q \<in> set (map item_ratio df)"
      using r by (force simp: item_ratio_def)
    show "Fin q \<noteq> NaN" by simp
    fix x assume x: "x \<in> set (map item_ratio df)" "x \<noteq> NaN"
    then obtain r' where r': "r' \<in> set df" "x = item_ratio r'" by auto
    show "fle (Fin q) x"
    proof (cases "?cand r'")
      case True
      then have "x \<in> set (map float_quotient (filter ?cand df))"
        using r' by (force simp: item_ratio_def)
      then show ?thesis
        using series_min_le [of x "map float_quotient (filter ?cand df)"] x(2) m by simp
    next
      case False
      then show ?thesis using r'(2) by (simp add: item_ratio_def)
    qed
  qed
qed

subsection \<open>On-hand values of the merged rows, and the remaining quantity\<close>

lemma on_hand_cells_mem:
  assumes "q \<in> set (on_hand_cells H nm)"
  shows "q = Num (Fin 0) \<or> q = Num NaN \<or> (\<exists>oh e. H = Some oh \<and> e \<in> set oh \<and> q = snd e)"
  using assms by (cases H) (auto simp: on_hand_cells_def split: if_splits)

lemma merged_on_hand:
  assumes "z \<in> set (with_on_hand cs H)"
  shows "\<exists>nm q. q \<in> set (on_hand_cells H nm) \<and> numeric (snd (snd (snd z))) = numeric q"
proof -
  have "make_row 0 z \<in> set (build_df cs H 0)"
    using assms by (simp add: build_df_def)
  then obtain c where c: "c \<in> set cs" "make_row 0 z \<in> set (build_df [c] H 0)"
    using build_df_mem [of "make_row 0 z" cs H 0] by blast
  obtain nm p u where cp: "c = (nm, p, u)" by (cases c)
  from c(2) obtain q where q: "q \<in> set (on_hand_cells H nm)"
    "make_row 0 z = make_row 0 (nm, p, u, q)"
    by (auto simp: cp build_df_single)
  have "On_Hand (make_row 0 z) = numeric q" by (simp add: q(2))
  then have "numeric (snd (snd (snd z))) = numeric q" by (cases z) simp
  with q(1) show ?thesis by blast
qed

lemma merged_on_hand_finite:
  assumes "finite_onhand H" and "z \<in> set (with_on_hand cs H)"
  shows "\<exists>b. numeric (snd (snd (snd z))) = Fin b"
proof -
  from merged_on_hand [OF assms(2)] obtain nm q where
    q: "q \<in> set (on_hand_cells H nm)" "numeric (snd (snd (snd z))) = numeric q" by blast
  have "finite_cell q"
    using on_hand_cells_mem [OF q(1)] assms(1)
    by (fastforce simp: finite_cell_def finite_onhand_def list_all_iff)
  then show ?thesis using numeric_finite [of q] q(2) by simp
qed

lemma fsub_antimono:
  assumes "fle x y"
  shows "fle (fsub (Fin b) y) (fsub (Fin b) x)"
proof (cases x)
  case (Fin x')
  show ?thesis
  proof (cases y)
    case (Fin y')
    with assms \<open>x = Fin x'\<close> have "b - y' \<le> b - x'" by auto
    then show ?thesis
      using round_double_mono by (simp add: Fin \<open>x = Fin x'\<close>)
  next
    case PInf
    then show ?thesis by (simp add: \<open>x = Fin x'\<close>)
  next
    case NInf
    with assms \<open>x = Fin x'\<close> show ?thesis by simp
  next
    case NaN
    with assms \<open>x = Fin x'\<close> show ?thesis by simp
  qed
next
  case PInf
  with assms have "y = PInf" by (cases y) auto
  with PInf show ?thesis by simp
next
  case NInf
  with assms have "y \<noteq> NaN" by (cases y) auto
  then have "fsub (Fin b) y \<noteq> NaN" by (cases y) auto
  with NInf show ?thesis by simp
next
  case NaN
  with assms show ?thesis by simp
qed

lemma remaining_le:
  assumes "numeric p = Fin a" and "0 \<le> a" and "numeric q = Fin b" and "n1 \<le> n2"
  shows "fle (Remaining (make_row n2 (nm, p, u, q))) (Remaining (make_row n1 (nm, p, u, q)))"
proof -
  have "a * n1 \<le> a * n2" using assms(2,4) by (simp add: mult_left_mono)
  then have "fle (round_double (a * n1)) (round_double (a * n2))" by (rule round_double_mono)
  then have "fle (fsub (Fin b) (round_double (a * n2))) (fsub (Fin b) (round_double (a * n1)))"
    by (rule fsub_antimono)
  then show ?thesis by (simp only: make_row_fields assms(1,3) fmul.simps)
qed

lemma is_double_zero [simp]: "is_double 0"
  by (simp add: is_double_def)

lemma merged_on_hand_double:
  assumes "double_onhand H" and "z \<in> set (with_on_hand cs H)"
    and "numeric (snd (snd (snd z))) = Fin b"
  shows "is_double b"
proof -
  from merged_on_hand [OF assms(2)] obtain nm q where
    q: "q \<in> set (on_hand_cells H nm)" "numeric (snd (snd (snd z))) = numeric q" by blast
  have dc: "double_cell q"
    using on_hand_cells_mem [OF q(1)] assms(1)
    by (fastforce simp: double_cell_def double_onhand_def list_all_iff)
  from q(2) assms(3) have "numeric q = Fin b" by simp
  then show ?thesis
    using dc
    by (cases q; cases "to_numeric q")
       (auto simp: numeric_def fillna_def to_numeric_def double_cell_def)
qed

lemma zero_order_row:
  assumes "numeric p = Fin a" and "\<And>b. numeric q = Fin b \<Longrightarrow> is_double b"
  shows "Required (make_row 0 (nm, p, u, q)) = Fin 0"
    and "Remaining (make_row 0 (nm, p, u, q)) = On_Hand (make_row 0 (nm, p, u, q))"
proof -
  show "Required (make_row 0 (nm, p, u, q)) = Fin 0"
    by (simp add: assms(1))
  show "Remaining (make_row 0 (nm, p, u, q)) = On_Hand (make_row 0 (nm, p, u, q))"
  proof (cases "numeric q")
    case (Fin b)
    then have "round_double b = Fin b" using assms(2) by (simp add: is_double_def)
    then show ?thesis by (simp add: assms(1) Fin)
  next
    case NaN
    then show ?thesis using numeric_not_NaN [of q] by simp
  qed (simp_all add: assms(1))
qed

section \<open>The claims\<close>

text \<open>
  C1, as the code has it. Let some component have a positive rate. Then
  \<open>compute_results\<close> returns exactly when the least float quotient
  \<open>on_hand / per_case_rate\<close> over the rows with a positive rate is finite, and the
  \<open>max_sellable\<close> it returns is the floor of that quotient. The quotient is the rounded
  double, and the value is not clamped at 0.
\<close>

theorem max_sellable_floor_of_minimum:
  assumes "\<exists>c\<in>set cs. flt (Fin 0) (rate c)"
  shows "(\<exists>d s. compute_results cs H n = Inr (d, m, s)) \<longleftrightarrow>
         (\<exists>q. series_min (map float_quotient
                   (filter (\<lambda>r. flt (Fin 0) (Per_Case r)) (build_df cs H n))) = Fin q
              \<and> m = \<lfloor>q\<rfloor>)"
proof -
  let ?df = "build_df cs H n"
  have cand: "\<exists>r\<in>set ?df. flt (Fin 0) (Per_Case r)"
    using assms by (simp add: candidates_iff)
  have "(\<exists>d s. compute_results cs H n = Inr (d, m, s)) \<longleftrightarrow>
      (\<exists>q. series_min (map item_ratio ?df) = Fin q \<and> m = \<lfloor>q\<rfloor>)"
    using cand
    by (cases "series_min (map item_ratio ?df)")
       (auto simp: compute_results_def compute_locals_closed find_bottleneck_canon)
  then show ?thesis by (simp only: series_min_candidates)
qed

theorem max_sellable_floor_of_minimum_witness:
  "(\<exists>c\<in>set [(''Sugar'', Num (Fin (3602879701896397 / 2 ^ 55)), ''kg'')]. flt (Fin 0) (rate c))
   \<and> compute_results [(''Sugar'', Num (Fin (3602879701896397 / 2 ^ 55)), ''kg'')]
        (Some [(''Sugar'', Num (Fin 500))]) 0 =
      Inr ([\<lparr>Component = ''Sugar'', UOM = ''kg'', On_Hand = Fin 500,
             Per_Case = Fin (3602879701896397 / 2 ^ 55), Required = Fin 0,
             Remaining = Fin 500\<rparr>], 5000, [])
   \<and> (\<exists>q. series_min (map float_quotient
              (filter (\<lambda>r. flt (Fin 0) (Per_Case r))
                 (build_df [(''Sugar'', Num (Fin (3602879701896397 / 2 ^ 55)), ''kg'')]
                    (Some [(''Sugar'', Num (Fin 500))]) 0))) = Fin q
          \<and> (5000 :: int) = \<lfloor>q\<rfloor>)"
proof -
  let ?cs = "[(''Sugar'', Num (Fin (3602879701896397 / 2 ^ 55)), ''kg'')]"
  let ?H = "Some [(''Sugar'', Num (Fin 500))]"
  have h: "\<exists>c\<in>set ?cs. flt (Fin 0) (rate c)"
    by (simp add: rate_def numeric_def fillna_def to_numeric_def)
  have v: "compute_results ?cs ?H 0 =
      Inr ([\<lparr>Component = ''Sugar'', UOM = ''kg'', On_Hand = Fin 500,
             Per_Case = Fin (3602879701896397 / 2 ^ 55), Required = Fin 0,
             Remaining = Fin 500\<rparr>], 5000, [])"
    by (simp add: compute_defs)
  then have "\<exists>d s. compute_results ?cs ?H 0 = Inr (d, 5000, s)" by blast
  then have "\<exists>q. series_min (map float_quotient
              (filter (\<lambda>r. flt (Fin 0) (Per_Case r)) (build_df ?cs ?H 0))) = Fin q
          \<and> (5000 :: int) = \<lfloor>q\<rfloor>"
    using max_sellable_floor_of_minimum [OF h, of ?H 0 5000] by blast
  with h v show ?thesis by blast
qed

text \<open>
  C1 as stated fails: with one component of rate 1 and an on-hand quantity of -5 the
  function returns -5 sellable cases.
\<close>

theorem max_sellable_not_clamped:
  "compute_results [(''Cap'', Num (Fin 1), ''ea'')] (Some [(''Cap'', Num (Fin (- 5)))]) 0 =
     Inr ([\<lparr>Component = ''Cap'', UOM = ''ea'', On_Hand = Fin (- 5), Per_Case = Fin 1,
            Required = Fin 0, Remaining = Fin (- 5)\<rparr>],
          - 5,
          [\<lparr>Component = ''Cap'', UOM = ''ea'', On_Hand = Fin (- 5), Per_Case = Fin 1,
            Required = Fin 0, Remaining = Fin (- 5)\<rparr>])"
  by (simp add: compute_defs)

text \<open>
  C2, as the code has it. Let every rate be finite and the on-hand table hold doubles.
  Whenever \<open>compute_results\<close> returns at order size 0, every row has \<open>Required = 0\<close> and
  \<open>Remaining = On_Hand\<close>, and the shortages are the rows whose \<open>On_Hand\<close> is negative:
  there is none exactly when no row has a negative \<open>On_Hand\<close>.
\<close>

theorem zero_order_identity:
  assumes "\<forall>c\<in>set cs. \<exists>a. rate c = Fin a"
    and "double_onhand H"
    and "compute_results cs H 0 = Inr (d, m, s)"
  shows "(\<forall>r\<in>set d. Required r = Fin 0 \<and> Remaining r = On_Hand r)
         \<and> mset s = mset (filter (\<lambda>r. flt (On_Hand r) (Fin 0)) d)
         \<and> (s = [] \<longleftrightarrow> (\<forall>r\<in>set d. \<not> flt (On_Hand r) (Fin 0)))"
proof -
  define df where "df = build_df cs H 0"
  have d: "d = sort_key Component df" and s: "s = filter (\<lambda>r. flt (Remaining r) (Fin 0)) df"
    using compute_results_display [OF assms(3)] by (simp_all add: df_def)
  have row: "Required r = Fin 0 \<and> Remaining r = On_Hand r" if "r \<in> set df" for r
  proof -
    from that obtain z where z: "z \<in> set (with_on_hand cs H)" "r = make_row 0 z"
      by (auto simp: df_def build_df_def)
    obtain nm p u q where zq: "z = (nm, p, u, q)" by (cases z)
    from merged_rate [OF z(1)] assms(1) obtain a where a: "numeric p = Fin a"
      by (auto simp: zq)
    have dbl: "is_double b" if "numeric q = Fin b" for b
      using merged_on_hand_double [OF assms(2) z(1)] that by (simp add: zq)
    show ?thesis
      using zero_order_row [OF a dbl] by (simp add: z(2) zq)
  qed
  then have rows: "\<forall>r\<in>set d. Required r = Fin 0 \<and> Remaining r = On_Hand r"
    by (simp add: d)
  have s_eq: "s = filter (\<lambda>r. flt (On_Hand r) (Fin 0)) df"
    unfolding s using row by (intro filter_cong) auto
  have ms: "mset s = mset (filter (\<lambda>r. flt (On_Hand r) (Fin 0)) d)"
    by (simp add: s_eq d)
  have emp: "s = [] \<longleftrightarrow> (\<forall>r\<in>set d. \<not> flt (On_Hand r) (Fin 0))"
    by (simp add: s_eq d filter_empty_conv)
  from rows ms emp show ?thesis by blast
qed

theorem zero_order_identity_witness:
  "double_onhand (Some [(''Bottle'', Num (Fin 500))])
   \<and> compute_results [(''Bottle'', Num (Fin 1), ''ea''), (''Label'', NonNumeric, ''ea'')]
       (Some [(''Bottle'', Num (Fin 500))]) 0 =
      Inr ([\<lparr>Component = ''Bottle'', UOM = ''ea'', On_Hand = Fin 500, Per_Case = Fin 1,
             Required = Fin 0, Remaining = Fin 500\<rparr>,
            \<lparr>Component = ''Label'', UOM = ''ea'', On_Hand = Fin 0, Per_Case = Fin 0,
             Required = Fin 0, Remaining = Fin 0\<rparr>], 500, [])
   \<and> mset ([] :: row list) = mset (filter (\<lambda>r. flt (On_Hand r) (Fin 0))
          [\<lparr>Component = ''Bottle'', UOM = ''ea'', On_Hand = Fin 500, Per_Case = Fin 1,
             Required = Fin 0, Remaining = Fin 500\<rparr>,
            \<lparr>Component = ''Label'', UOM = ''ea'', On_Hand = Fin 0, Per_Case = Fin 0,
             Required = Fin 0, Remaining = Fin 0\<rparr>])"
proof -
  let ?cs = "[(''Bottle'', Num (Fin 1), ''ea''), (''Label'', NonNumeric, ''ea'')]"
  let ?H = "Some [(''Bottle'', Num (Fin 500))]"
  have h1: "\<forall>c\<in>set ?cs. \<exists>a. rate c = Fin a"
    by (simp add: rate_def numeric_def fillna_def to_numeric_def)
  have h2: "double_onhand ?H"
    by (simp add: double_onhand_def double_cell_def is_double_def round_eval Let_def)
  have h3: "compute_results ?cs ?H 0 =
      Inr ([\<lparr>Component = ''Bottle'', UOM = ''ea'', On_Hand = Fin 500, Per_Case = Fin 1,
             Required = Fin 0, Remaining = Fin 500\<rparr>,
            \<lparr>Component = ''Label'', UOM = ''ea'', On_Hand = Fin 0, Per_Case = Fin 0,
             Required = Fin 0, Remaining = Fin 0\<rparr>], 500, [])"
    by (simp add: compute_defs)
  show ?thesis
    using h2 h3 zero_order_identity [OF h1 h2 h3] by blast
qed

text \<open>
  C2 as stated fails: with an on-hand quantity of -3 the order of size 0 has a shortage.
\<close>

theorem zero_order_shortage:
  "compute_results [(''Label'', Num (Fin 2), ''ea'')] (Some [(''Label'', Num (Fin (- 3)))]) 0 =
     Inr ([\<lparr>Component = ''Label'', UOM = ''ea'', On_Hand = Fin (- 3), Per_Case = Fin 2,
            Required = Fin 0, Remaining = Fin (- 3)\<rparr>],
          - 2,
          [\<lparr>Component = ''Label'', UOM = ''ea'', On_Hand = Fin (- 3), Per_Case = Fin 2,
            Required = Fin 0, Remaining = Fin (- 3)\<rparr>])"
  by (simp add: compute_defs)

text \<open>
  C3, as the code has it. In the rows \<open>compute_results\<close> returns, a component appears once
  for every on-hand entry of its name, and once when the on-hand table has no entry of
  its name or is missing. So it appears exactly once when the on-hand table holds at most
  one entry of its name. A row whose name is absent from the on-hand table has
  \<open>On_Hand = 0\<close>.
\<close>

theorem join_rows:
  assumes "compute_results cs H n = Inr (d, m, s)"
  shows "mset (map (\<lambda>r. (Component r, UOM r, Per_Case r)) d) =
           mset (concat (map (\<lambda>c. replicate (copies H (fst c))
                                     (fst c, snd (snd c), rate c)) cs))
         \<and> (\<forall>r\<in>set d. Component r \<notin> onhand_names H \<longrightarrow> On_Hand r = Fin 0)
         \<and> (\<forall>nm. nm \<notin> onhand_names H \<longrightarrow> copies H nm = 1)
         \<and> ((\<forall>c\<in>set cs. copies H (fst c) = 1) \<longrightarrow>
              mset (map (\<lambda>r. (Component r, UOM r, Per_Case r)) d) =
              mset (map (\<lambda>c. (fst c, snd (snd c), rate c)) cs))"
proof -
  let ?proj = "\<lambda>r. (Component r, UOM r, Per_Case r)"
  have d: "d = sort_key Component (build_df cs H n)"
    by (rule compute_results_display(1) [OF assms])
  have "mset (map ?proj d) = mset (map ?proj (build_df cs H n))"
    by (simp add: d)
  then have one: "mset (map ?proj d) =
      mset (concat (map (\<lambda>c. replicate (copies H (fst c)) (fst c, snd (snd c), rate c)) cs))"
    by (simp only: build_df_proj)
  have two: "\<forall>r\<in>set d. Component r \<notin> onhand_names H \<longrightarrow> On_Hand r = Fin 0"
    using on_hand_absent [of _ cs H n] by (simp add: d)
  have three: "\<forall>nm. nm \<notin> onhand_names H \<longrightarrow> copies H nm = 1"
    using copies_absent by blast
  have four: "mset (map ?proj d) = mset (map (\<lambda>c. (fst c, snd (snd c), rate c)) cs)"
    if "\<forall>c\<in>set cs. copies H (fst c) = 1"
  proof -
    have "concat (map (\<lambda>c. replicate (copies H (fst c)) (fst c, snd (snd c), rate c)) cs) =
        map (\<lambda>c. (fst c, snd (snd c), rate c)) cs"
      using that by (induction cs) simp_all
    with one show ?thesis by simp
  qed
  from one two three four show ?thesis by blast
qed

theorem join_rows_witness:
  "compute_results [(''Bottle'', Num (Fin 1), ''ea''), (''Label'', Num (Fin 1), ''roll'')]
       (Some [(''Bottle'', Num (Fin 500))]) 400 =
     Inr ([\<lparr>Component = ''Bottle'', UOM = ''ea'', On_Hand = Fin 500, Per_Case = Fin 1,
            Required = Fin 400, Remaining = Fin 100\<rparr>,
           \<lparr>Component = ''Label'', UOM = ''roll'', On_Hand = Fin 0, Per_Case = Fin 1,
            Required = Fin 400, Remaining = Fin (- 400)\<rparr>],
          0,
          [\<lparr>Component = ''Label'', UOM = ''roll'', On_Hand = Fin 0, Per_Case = Fin 1,
            Required = Fin 400, Remaining = Fin (- 400)\<rparr>])
   \<and> mset (map (\<lambda>r. (Component r, UOM r, Per_Case r))
        [\<lparr>Component = ''Bottle'', UOM = ''ea'', On_Hand = Fin 500, Per_Case = Fin 1,
            Required = Fin 400, Remaining = Fin 100\<rparr>,
         \<lparr>Component = ''Label'', UOM = ''roll'', On_Hand = Fin 0, Per_Case = Fin 1,
            Required = Fin 400, Remaining = Fin (- 400)\<rparr>]) =
     mset (map (\<lambda>c. (fst c, snd (snd c), rate c))
        [(''Bottle'', Num (Fin 1), ''ea''), (''Label'', Num (Fin 1), ''roll'')])
   \<and> ''Label'' \<notin> onhand_names (Some [(''Bottle'', Num (Fin 500))])
   \<and> copies (Some [(''Bottle'', Num (Fin 500))]) ''Label'' = 1"
proof -
  let ?cs = "[(''Bottle'', Num (Fin 1), ''ea''), (''Label'', Num (Fin 1), ''roll'')]"
  let ?H = "Some [(''Bottle'', Num (Fin 500))]"
  let ?d = "[\<lparr>Component = ''Bottle'', UOM = ''ea'', On_Hand = Fin 500, Per_Case = Fin 1,
            Required = Fin 400, Remaining = Fin 100\<rparr>,
           \<lparr>Component = ''Label'', UOM = ''roll'', On_Hand = Fin 0, Per_Case = Fin 1,
            Required = Fin 400, Remaining = Fin (- 400)\<rparr>]"
  let ?s = "[\<lparr>Component = ''Label'', UOM = ''roll'', On_Hand = Fin 0, Per_Case = Fin 1,
            Required = Fin 400, Remaining = Fin (- 400)\<rparr>]"
  have h: "compute_results ?cs ?H 400 = Inr (?d, 0, ?s)"
    by (simp add: compute_defs)
  have once: "\<forall>c\<in>set ?cs. copies ?H (fst c) = 1"
    by (simp add: copies_def)
  have absent: "''Label'' \<notin> onhand_names ?H"
    by (simp add: onhand_names_def)
  from join_rows [OF h] once absent
  have "mset (map (\<lambda>r. (Component r, UOM r, Per_Case r)) ?d) =
          mset (map (\<lambda>c. (fst c, snd (snd c), rate c)) ?cs)"
    and "copies ?H ''Label'' = 1"
    by blast+
  with h absent show ?thesis by blast
qed

text \<open>
  C3 as stated fails: one component with two on-hand entries of its name gives two rows.
\<close>

theorem join_duplicates_component:
  "compute_results [(''Cap'', Num (Fin 1), ''ea'')]
       (Some [(''Cap'', Num (Fin 5)), (''Cap'', Num (Fin 7))]) 0 =
     Inr ([\<lparr>Component = ''Cap'', UOM = ''ea'', On_Hand = Fin 5, Per_Case = Fin 1,
            Required = Fin 0, Remaining = Fin 5\<rparr>,
           \<lparr>Component = ''Cap'', UOM = ''ea'', On_Hand = Fin 7, Per_Case = Fin 1,
            Required = Fin 0, Remaining = Fin 7\<rparr>],
          5, [])"
  by (simp add: compute_defs)

text \<open>
  C4, as the code has it. When the on-hand table has entries named \<open>nm\<close>, each component
  named \<open>nm\<close> yields one output row for every such entry, and these rows carry the
  coerced quantities of those entries, all of them and not only the last.
\<close>

theorem duplicate_on_hand_rows:
  assumes "compute_results cs (Some oh) n = Inr (d, m, s)" and "nm \<in> fst ` set oh"
  shows "mset (map On_Hand (filter (\<lambda>r. Component r = nm) d)) =
           mset (concat (map (\<lambda>c. map (\<lambda>e. numeric (snd e)) (filter (\<lambda>e. fst e = nm) oh))
                          (filter (\<lambda>c. fst c = nm) cs)))"
proof -
  have d: "d = sort_key Component (build_df cs (Some oh) n)"
    by (rule compute_results_display(1) [OF assms(1)])
  have "filter (\<lambda>r. Component r = nm) d =
      filter (\<lambda>r. Component r = nm) (build_df cs (Some oh) n)"
    unfolding d by (rule sort_key_stable)
  then show ?thesis by (simp only: on_hand_of_name [OF assms(2)])
qed

theorem duplicate_on_hand_rows_witness:
  "compute_results [(''Cork'', Num (Fin 2), ''ea'')]
       (Some [(''Cork'', Num (Fin 4)), (''Cork'', Num (Fin 8))]) 1 =
     Inr ([\<lparr>Component = ''Cork'', UOM = ''ea'', On_Hand = Fin 4, Per_Case = Fin 2,
            Required = Fin 2, Remaining = Fin 2\<rparr>,
           \<lparr>Component = ''Cork'', UOM = ''ea'', On_Hand = Fin 8, Per_Case = Fin 2,
            Required = Fin 2, Remaining = Fin 6\<rparr>],
          2, [])
   \<and> ''Cork'' \<in> fst ` set [(''Cork'', Num (Fin 4)), (''Cork'', Num (Fin 8))]
   \<and> mset (map On_Hand (filter (\<lambda>r. Component r = ''Cork'')
        [\<lparr>Component = ''Cork'', UOM = ''ea'', On_Hand = Fin 4, Per_Case = Fin 2,
            Required = Fin 2, Remaining = Fin 2\<rparr>,
         \<lparr>Component = ''Cork'', UOM = ''ea'', On_Hand = Fin 8, Per_Case = Fin 2,
            Required = Fin 2, Remaining = Fin 6\<rparr>])) = mset [Fin 4, Fin 8]"
proof -
  let ?cs = "[(''Cork'', Num (Fin 2), ''ea'')]"
  let ?oh = "[(''Cork'', Num (Fin 4)), (''Cork'', Num (Fin 8))]"
  let ?d = "[\<lparr>Component = ''Cork'', UOM = ''ea'', On_Hand = Fin 4, Per_Case = Fin 2,
            Required = Fin 2, Remaining = Fin 2\<rparr>,
           \<lparr>Component = ''Cork'', UOM = ''ea'', On_Hand = Fin 8, Per_Case = Fin 2,
            Required = Fin 2, Remaining = Fin 6\<rparr>]"
  have h1: "compute_results ?cs (Some ?oh) 1 = Inr (?d, 2, [])"
    by (simp add: compute_defs)
  have h2: "''Cork'' \<in> fst ` set ?oh" by simp
  have v: "concat (map (\<lambda>c. map (\<lambda>e. numeric (snd e)) (filter (\<lambda>e. fst e = ''Cork'') ?oh))
              (filter (\<lambda>c. fst c = ''Cork'') ?cs)) = [Fin 4, Fin 8]"
    by (simp add: numeric_def fillna_def to_numeric_def)
  have "mset (map On_Hand (filter (\<lambda>r. Component r = ''Cork'') ?d)) = mset [Fin 4, Fin 8]"
    using duplicate_on_hand_rows [OF h1 h2] unfolding v .
  with h1 h2 show ?thesis by blast
qed

text \<open>
  C4 as stated fails: with the on-hand entries 3 and 9 for one component the output has a
  row for each, and 3, the first, bounds the sellable cases.
\<close>

theorem last_on_hand_does_not_win:
  "compute_results [(''Bottle'', Num (Fin 1), ''ea''), (''Cap'', Num (Fin 1), ''ea'')]
       (Some [(''Cap'', Num (Fin 3)), (''Bottle'', Num (Fin 50)), (''Cap'', Num (Fin 9))]) 0 =
     Inr ([\<lparr>Component = ''Bottle'', UOM = ''ea'', On_Hand = Fin 50, Per_Case = Fin 1,
            Required = Fin 0, Remaining = Fin 50\<rparr>,
           \<lparr>Component = ''Cap'', UOM = ''ea'', On_Hand = Fin 3, Per_Case = Fin 1,
            Required = Fin 0, Remaining = Fin 3\<rparr>,
           \<lparr>Component = ''Cap'', UOM = ''ea'', On_Hand = Fin 9, Per_Case = Fin 1,
            Required = Fin 0, Remaining = Fin 9\<rparr>],
          3, [])"
  by (simp add: compute_defs)

text \<open>
  C5, as the code has it. A quantity cell that is not numeric, or is NaN, is treated as
  the number 0 everywhere: replacing all such cells by 0 changes nothing in what
  \<open>compute_results\<close> returns or raises. A table whose rates are all such cells has no
  positive rate, and the call returns 0 sellable cases. An infinity is not replaced.
\<close>

theorem coercion_defaults_to_zero:
  "compute_results (zero_filled_components cs) (zero_filled_onhand H) n = compute_results cs H n
   \<and> compute_locals (zero_filled_components cs) (zero_filled_onhand H) n = compute_locals cs H n
   \<and> ((\<forall>c\<in>set cs. fst (snd c) = NonNumeric \<or> fst (snd c) = Num NaN) \<longrightarrow>
        (\<exists>d s. compute_results cs H n = Inr (d, 0, s)))"
proof -
  have loc: "compute_locals (zero_filled_components cs) (zero_filled_onhand H) n =
      compute_locals cs H n"
    by (simp only: compute_locals_closed build_df_zero_filled)
  then have res: "compute_results (zero_filled_components cs) (zero_filled_onhand H) n =
      compute_results cs H n"
    by (simp add: compute_results_def)
  have "\<exists>d s. compute_results cs H n = Inr (d, 0, s)"
    if bad: "\<forall>c\<in>set cs. fst (snd c) = NonNumeric \<or> fst (snd c) = Num NaN"
  proof -
    have "\<forall>c\<in>set cs. rate c = Fin 0"
      using bad by (auto simp: rate_def numeric_def fillna_def to_numeric_def)
    then have "\<not> (\<exists>c\<in>set cs. flt (Fin 0) (rate c))" by simp
    then have "\<not> (\<exists>r\<in>set (build_df cs H n). flt (Fin 0) (Per_Case r))"
      using candidates_iff [of cs H n] by blast
    then show ?thesis
      by (simp add: compute_results_def compute_locals_closed find_bottleneck_canon)
  qed
  with loc res show ?thesis by blast
qed

theorem coercion_defaults_to_zero_witness:
  "compute_results [(''Bottle'', Num (Fin 1), ''ea''), (''Glue'', NonNumeric, ''ml''),
                  (''Ink'', Num NaN, ''ml'')]
       (Some [(''Bottle'', NonNumeric), (''Glue'', Num (Fin 3))]) 2 =
      compute_results [(''Bottle'', Num (Fin 1), ''ea''), (''Glue'', Num (Fin 0), ''ml''),
                  (''Ink'', Num (Fin 0), ''ml'')]
       (Some [(''Bottle'', Num (Fin 0)), (''Glue'', Num (Fin 3))]) 2
   \<and> (\<exists>d s. compute_results [(''Glue'', NonNumeric, ''ml''), (''Ink'', Num NaN, ''ml'')]
               (Some [(''Glue'', Num PInf)]) 2 = Inr (d, 0, s))"
proof -
  let ?cs = "[(''Bottle'', Num (Fin 1), ''ea''), (''Glue'', NonNumeric, ''ml''),
              (''Ink'', Num NaN, ''ml'')]"
  let ?H = "Some [(''Bottle'', NonNumeric), (''Glue'', Num (Fin 3))]"
  let ?cs2 = "[(''Glue'', NonNumeric, ''ml''), (''Ink'', Num NaN, ''ml'')]"
  have z1: "zero_filled_components ?cs =
      [(''Bottle'', Num (Fin 1), ''ea''), (''Glue'', Num (Fin 0), ''ml''),
       (''Ink'', Num (Fin 0), ''ml'')]"
    by (simp add: zero_filled_components_def zero_filled_def)
  have z2: "zero_filled_onhand ?H = Some [(''Bottle'', Num (Fin 0)), (''Glue'', Num (Fin 3))]"
    by (simp add: zero_filled_onhand_def zero_filled_def)
  have bad: "\<forall>c\<in>set ?cs2. fst (snd c) = NonNumeric \<or> fst (snd c) = Num NaN" by simp
  have one: "compute_results ?cs ?H 2 =
      compute_results [(''Bottle'', Num (Fin 1), ''ea''), (''Glue'', Num (Fin 0), ''ml''),
                  (''Ink'', Num (Fin 0), ''ml'')]
       (Some [(''Bottle'', Num (Fin 0)), (''Glue'', Num (Fin 3))]) 2"
    using coercion_defaults_to_zero [of ?cs ?H 2] unfolding z1 z2 by simp
  have two: "\<exists>d s. compute_results ?cs2 (Some [(''Glue'', Num PInf)]) 2 = Inr (d, 0, s)"
    using coercion_defaults_to_zero [of ?cs2 "Some [(''Glue'', Num PInf)]" 2] bad by blast
  from one two show ?thesis by blast
qed

text \<open>
  C5 as stated fails: an infinite on-hand quantity is kept, and \<^verbatim>\<open>math.floor\<close> raises
  \<^verbatim>\<open>OverflowError\<close> where the quantity 0 gives a result.
\<close>

theorem infinity_is_not_zero:
  "compute_results [(''Bottle'', Num (Fin 1), ''ea'')] (Some [(''Bottle'', Num PInf)]) 0 =
     Inl OverflowError
   \<and> compute_results [(''Bottle'', Num (Fin 1), ''ea'')] (Some [(''Bottle'', Num (Fin 0))]) 0 =
     Inr ([\<lparr>Component = ''Bottle'', UOM = ''ea'', On_Hand = Fin 0, Per_Case = Fin 1,
            Required = Fin 0, Remaining = Fin 0\<rparr>], 0, [])"
  by (simp add: compute_defs)

text \<open>
  C6. When no component has a positive rate, \<open>compute_results\<close> returns 0 sellable cases
  and the local \<open>bottleneck\<close> is \<open>None\<close>, for every on-hand table and order size. In every
  run that returns, the bottleneck has a positive rate, and removing the components of
  rate 0 from the table changes neither \<open>max_sellable\<close> nor the bottleneck: they take no
  part in the minimum.
\<close>

theorem zero_rate_never_bottleneck:
  "((\<forall>c\<in>set cs. \<not> flt (Fin 0) (rate c)) \<longrightarrow>
      (\<exists>d s. compute_locals cs H n =
                Inr \<lparr>display = d, max_sellable = 0, shortages = s, bottleneck_of = None\<rparr>
              \<and> compute_results cs H n = Inr (d, 0, s)))
   \<and> (\<forall>res b. compute_locals cs H n = Inr res \<and> bottleneck_of res = Some b \<longrightarrow>
         flt (Fin 0) (Item_Per_Case b))
   \<and> (\<forall>res. compute_locals cs H n = Inr res \<longrightarrow>
         (\<exists>res'. compute_locals (filter (\<lambda>c. rate c \<noteq> Fin 0) cs) H n = Inr res'
                 \<and> max_sellable res' = max_sellable res
                 \<and> bottleneck_of res' = bottleneck_of res))"
proof (intro conjI impI allI)
  assume none: "\<forall>c\<in>set cs. \<not> flt (Fin 0) (rate c)"
  then have "\<not> (\<exists>r\<in>set (build_df cs H n). flt (Fin 0) (Per_Case r))"
    by (simp add: candidates_iff)
  then show "\<exists>d s. compute_locals cs H n =
                Inr \<lparr>display = d, max_sellable = 0, shortages = s, bottleneck_of = None\<rparr>
              \<and> compute_results cs H n = Inr (d, 0, s)"
    by (simp add: compute_results_def compute_locals_closed find_bottleneck_canon)
next
  fix res b
  assume a: "compute_locals cs H n = Inr res \<and> bottleneck_of res = Some b"
  let ?df = "build_df cs H n"
  from a obtain mb where mb: "find_bottleneck ?df = Inr mb" "snd mb = Some b"
    by (auto simp: compute_locals_closed split: sum.splits)
  then have cand: "\<exists>r\<in>set ?df. flt (Fin 0) (Per_Case r)"
    by (auto simp: find_bottleneck_canon split: if_splits)
  with mb obtain q where q: "series_min (map item_ratio ?df) = Fin q"
    by (cases "series_min (map item_ratio ?df)") (simp_all add: find_bottleneck_canon)
  then have mem: "Fin q \<in> set (map item_ratio ?df)"
    using series_min_mem [of "map item_ratio ?df"] by simp
  from mb cand q have "b = info_of (first_at (Fin q) ?df)"
    by (auto simp: find_bottleneck_canon)
  then have "Item_Per_Case b = Per_Case (first_at (Fin q) ?df)"
    by (simp add: info_of_def)
  then show "flt (Fin 0) (Item_Per_Case b)"
    using item_ratio_Fin_positive [OF first_at_hit(2) [OF mem]] by simp
next
  fix res
  assume a: "compute_locals cs H n = Inr res"
  then obtain mb where mb: "find_bottleneck (build_df cs H n) = Inr mb"
    "max_sellable res = fst mb" "bottleneck_of res = snd mb"
    by (auto simp: compute_locals_closed split: sum.splits)
  have "find_bottleneck (build_df (filter (\<lambda>c. rate c \<noteq> Fin 0) cs) H n) = Inr mb"
    using find_bottleneck_filter [OF mb(1)] by (simp add: build_df_filter)
  then show "\<exists>res'. compute_locals (filter (\<lambda>c. rate c \<noteq> Fin 0) cs) H n = Inr res'
                 \<and> max_sellable res' = max_sellable res
                 \<and> bottleneck_of res' = bottleneck_of res"
    using mb(2,3) by (simp add: compute_locals_closed)
qed

theorem zero_rate_never_bottleneck_witness:
  "\<not> (\<exists>c\<in>set [(''CapLiner'', Num (Fin 0), ''ea''), (''Glue'', NonNumeric, ''ml'')].
        flt (Fin 0) (rate c))
   \<and> (\<exists>d s. compute_locals [(''CapLiner'', Num (Fin 0), ''ea''), (''Glue'', NonNumeric, ''ml'')]
               (Some [(''CapLiner'', Num (Fin 40))]) 7 =
          Inr \<lparr>display = d, max_sellable = 0, shortages = s, bottleneck_of = None\<rparr>)
   \<and> (\<exists>res b. compute_locals [(''CapLiner'', Num (Fin 0), ''ea''), (''Y'', Num (Fin 5), ''kg'')]
                 (Some [(''CapLiner'', Num (Fin 1)), (''Y'', Num (Fin 10))]) 3 = Inr res
         \<and> bottleneck_of res = Some b \<and> Item b = ''Y'' \<and> flt (Fin 0) (Item_Per_Case b)
         \<and> (\<exists>res'. compute_locals
                      (filter (\<lambda>c. rate c \<noteq> Fin 0)
                         [(''CapLiner'', Num (Fin 0), ''ea''), (''Y'', Num (Fin 5), ''kg'')])
                      (Some [(''CapLiner'', Num (Fin 1)), (''Y'', Num (Fin 10))]) 3 = Inr res'
                 \<and> max_sellable res' = max_sellable res
                 \<and> bottleneck_of res' = bottleneck_of res))"
proof -
  let ?cs = "[(''CapLiner'', Num (Fin 0), ''ea''), (''Glue'', NonNumeric, ''ml'')]"
  let ?H = "Some [(''CapLiner'', Num (Fin 40))]"
  let ?cs2 = "[(''CapLiner'', Num (Fin 0), ''ea''), (''Y'', Num (Fin 5), ''kg'')]"
  let ?H2 = "Some [(''CapLiner'', Num (Fin 1)), (''Y'', Num (Fin 10))]"
  let ?b = "\<lparr>Item = ''Y'', Item_UOM = ''kg'', Item_On_Hand = Fin 10, Item_Per_Case = Fin 5,
             MaxCasesByItem = Fin 2\<rparr>"
  have h: "\<forall>c\<in>set ?cs. \<not> flt (Fin 0) (rate c)"
    by (simp add: rate_def numeric_def fillna_def to_numeric_def)
  have v: "map_sum id bottleneck_of (compute_locals ?cs2 ?H2 3) = Inr (Some ?b)"
    by (simp add: compute_defs)
  then obtain res where res: "compute_locals ?cs2 ?H2 3 = Inr res" "bottleneck_of res = Some ?b"
    by (cases "compute_locals ?cs2 ?H2 3") auto
  from zero_rate_never_bottleneck [of ?cs ?H 7] h
  have one: "\<exists>d s. compute_locals ?cs ?H 7 =
          Inr \<lparr>display = d, max_sellable = 0, shortages = s, bottleneck_of = None\<rparr>"
    by blast
  from zero_rate_never_bottleneck [of ?cs2 ?H2 3] res
  have two: "flt (Fin 0) (Item_Per_Case ?b)"
    and three: "\<exists>res'. compute_locals (filter (\<lambda>c. rate c \<noteq> Fin 0) ?cs2) ?H2 3 = Inr res'
                 \<and> max_sellable res' = max_sellable res
                 \<and> bottleneck_of res' = bottleneck_of res"
    by blast+
  have item: "Item ?b = ''Y''" by simp
  from h have "\<not> (\<exists>c\<in>set ?cs. flt (Fin 0) (rate c))" by blast
  with one res two three item show ?thesis by blast
qed

text \<open>
  C7, as the code has it. Let some component have a positive rate and let the call
  return. Then the local \<open>bottleneck\<close> describes a row of a component \<open>c\<close> with a positive
  rate whose float quotient \<open>on_hand / per_case_rate\<close> is least among the rows with a
  positive rate, and no such row of a component listed before \<open>c\<close> has the same float
  quotient: among components tied on the rounded quotient the first in the order of the
  components table is taken.
\<close>

theorem bottleneck_is_first_minimum:
  assumes "compute_locals cs H n = Inr res" and "\<exists>c\<in>set cs. flt (Fin 0) (rate c)"
  shows "\<exists>b cs1 c cs2 r.
           bottleneck_of res = Some b
           \<and> cs = cs1 @ c # cs2 \<and> r \<in> set (build_df [c] H n)
           \<and> Item b = fst c \<and> Item_UOM b = snd (snd c) \<and> Item_Per_Case b = rate c
           \<and> Item_On_Hand b = On_Hand r \<and> MaxCasesByItem b = float_quotient r
           \<and> flt (Fin 0) (rate c)
           \<and> (\<forall>r'\<in>set (build_df cs H n).
                 flt (Fin 0) (Per_Case r') \<longrightarrow>
                 float_quotient r' = NaN \<or> fle (float_quotient r) (float_quotient r'))
           \<and> (\<forall>r'\<in>set (build_df cs1 H n).
                 flt (Fin 0) (Per_Case r') \<longrightarrow> float_quotient r' \<noteq> float_quotient r)"
proof -
  define df where "df = build_df cs H n"
  have cand: "\<exists>r\<in>set df. flt (Fin 0) (Per_Case r)"
    using assms(2) by (simp add: df_def candidates_iff)
  from assms(1) obtain mb where mb: "find_bottleneck df = Inr mb" "bottleneck_of res = snd mb"
    by (auto simp: compute_locals_closed df_def split: sum.splits)
  with cand obtain q where smin: "series_min (map item_ratio df) = Fin q"
    by (cases "series_min (map item_ratio df)") (simp_all add: find_bottleneck_canon)
  define r where "r = first_at (Fin q) df"
  have b: "bottleneck_of res = Some (info_of r)"
    using mb cand smin by (auto simp: find_bottleneck_canon r_def)
  have mem: "Fin q \<in> set (map item_ratio df)"
    using smin series_min_mem [of "map item_ratio df"] by simp
  from first_at_component [of q cs H n] mem obtain cs1 c cs2 where
    split: "cs = cs1 @ c # cs2" "r \<in> set (build_df [c] H n)"
      "\<forall>r\<in>set (build_df cs1 H n). item_ratio r \<noteq> Fin q"
    unfolding r_def df_def by blast
  have ratio_r: "item_ratio r = Fin q"
    unfolding r_def by (rule first_at_hit(2) [OF mem])
  have pos_r: "flt (Fin 0) (Per_Case r)" by (rule item_ratio_Fin_positive [OF ratio_r])
  have q_r: "float_quotient r = Fin q" using ratio_r pos_r by (simp add: item_ratio_def)
  have fields: "Component r = fst c" "UOM r = snd (snd c)" "Per_Case r = rate c"
    using build_df_single_fields [OF split(2)] by simp_all
  have info: "Item (info_of r) = fst c" "Item_UOM (info_of r) = snd (snd c)"
    "Item_Per_Case (info_of r) = rate c" "Item_On_Hand (info_of r) = On_Hand r"
    "MaxCasesByItem (info_of r) = float_quotient r"
    using fields ratio_r q_r by (simp_all add: info_of_def)
  have pos_c: "flt (Fin 0) (rate c)" using pos_r fields(3) by simp
  have all_le: "\<forall>r'\<in>set (build_df cs H n). flt (Fin 0) (Per_Case r') \<longrightarrow>
      float_quotient r' = NaN \<or> fle (float_quotient r) (float_quotient r')"
  proof (intro ballI impI)
    fix r' assume r': "r' \<in> set (build_df cs H n)" "flt (Fin 0) (Per_Case r')"
    then have "float_quotient r' \<in> set (map item_ratio df)"
      by (force simp: df_def item_ratio_def)
    then have "float_quotient r' \<noteq> NaN \<Longrightarrow>
        fle (series_min (map item_ratio df)) (float_quotient r')"
      by (rule series_min_le)
    then show "float_quotient r' = NaN \<or> fle (float_quotient r) (float_quotient r')"
      by (auto simp only: smin q_r)
  qed
  have all_ne: "\<forall>r'\<in>set (build_df cs1 H n). flt (Fin 0) (Per_Case r') \<longrightarrow>
      float_quotient r' \<noteq> float_quotient r"
    using split(3) by (auto simp: item_ratio_def q_r)
  from b info pos_c all_le all_ne split(1,2)
  have "bottleneck_of res = Some (info_of r)
        \<and> cs = cs1 @ c # cs2 \<and> r \<in> set (build_df [c] H n)
        \<and> Item (info_of r) = fst c \<and> Item_UOM (info_of r) = snd (snd c)
        \<and> Item_Per_Case (info_of r) = rate c
        \<and> Item_On_Hand (info_of r) = On_Hand r
        \<and> MaxCasesByItem (info_of r) = float_quotient r
        \<and> flt (Fin 0) (rate c)
        \<and> (\<forall>r'\<in>set (build_df cs H n). flt (Fin 0) (Per_Case r') \<longrightarrow>
              float_quotient r' = NaN \<or> fle (float_quotient r) (float_quotient r'))
        \<and> (\<forall>r'\<in>set (build_df cs1 H n). flt (Fin 0) (Per_Case r') \<longrightarrow>
              float_quotient r' \<noteq> float_quotient r)"
    by simp
  then show ?thesis by blast
qed

theorem bottleneck_is_first_minimum_witness:
  "map_sum id bottleneck_of
        (compute_locals [(''Syrup'', Num (Fin 1), ''l''),
                         (''Sugar'', Num (Fin (3602879701896397 / 2 ^ 55)), ''kg'')]
          (Some [(''Syrup'', Num (Fin 5000)), (''Sugar'', Num (Fin 500))]) 0)
      = Inr (Some \<lparr>Item = ''Syrup'', Item_UOM = ''l'', Item_On_Hand = Fin 5000,
                   Item_Per_Case = Fin 1, MaxCasesByItem = Fin 5000\<rparr>)
   \<and> (\<exists>c\<in>set [(''Syrup'', Num (Fin 1), ''l''),
                (''Sugar'', Num (Fin (3602879701896397 / 2 ^ 55)), ''kg'')].
         flt (Fin 0) (rate c))
   \<and> (\<exists>res b cs1 c cs2 r.
         compute_locals [(''Syrup'', Num (Fin 1), ''l''),
                         (''Sugar'', Num (Fin (3602879701896397 / 2 ^ 55)), ''kg'')]
          (Some [(''Syrup'', Num (Fin 5000)), (''Sugar'', Num (Fin 500))]) 0 = Inr res
         \<and> bottleneck_of res = Some b
         \<and> [(''Syrup'', Num (Fin 1), ''l''),
             (''Sugar'', Num (Fin (3602879701896397 / 2 ^ 55)), ''kg'')] = cs1 @ c # cs2
         \<and> Item b = fst c \<and> flt (Fin 0) (rate c) \<and> MaxCasesByItem b = float_quotient r)"
proof -
  let ?cs = "[(''Syrup'', Num (Fin 1), ''l''),
              (''Sugar'', Num (Fin (3602879701896397 / 2 ^ 55)), ''kg'')]"
  let ?H = "Some [(''Syrup'', Num (Fin 5000)), (''Sugar'', Num (Fin 500))]"
  have h2: "\<exists>c\<in>set ?cs. flt (Fin 0) (rate c)"
    by (simp add: rate_def numeric_def fillna_def to_numeric_def)
  have v: "map_sum id bottleneck_of (compute_locals ?cs ?H 0)
      = Inr (Some \<lparr>Item = ''Syrup'', Item_UOM = ''l'', Item_On_Hand = Fin 5000,
                   Item_Per_Case = Fin 1, MaxCasesByItem = Fin 5000\<rparr>)"
    by (simp add: compute_defs)
  then obtain res where h1: "compute_locals ?cs ?H 0 = Inr res"
    by (cases "compute_locals ?cs ?H 0") auto
  from bottleneck_is_first_minimum [OF h1 h2]
  have "\<exists>b cs1 c cs2 r. bottleneck_of res = Some b
         \<and> ?cs = cs1 @ c # cs2
         \<and> Item b = fst c \<and> flt (Fin 0) (rate c) \<and> MaxCasesByItem b = float_quotient r"
    by blast
  with h1 h2 v show ?thesis by blast
qed

text \<open>
  C7 as stated fails: a component with a positive rate and an infinite on-hand quantity
  makes \<^verbatim>\<open>math.floor\<close> raise, and no bottleneck is reported.
\<close>

theorem no_bottleneck_when_floor_raises:
  "compute_locals [(''Syrup'', Num (Fin 1), ''l'')] (Some [(''Syrup'', Num NInf)]) 3 =
     Inl OverflowError
   \<and> flt (Fin 0) (rate (''Syrup'', Num (Fin 1), ''l''))"
  by (simp add: compute_defs rate_def)

text \<open>
  C8, as the code has it. Let every rate be a finite number that is not negative, let no
  on-hand quantity be an infinity, and let \<open>n1 < n2\<close>. If \<open>compute_results\<close> returns at
  \<open>n1\<close>, it returns at \<open>n2\<close> with the same rows in the same order and the same
  \<open>max_sellable\<close>, and each row's \<open>Remaining\<close> at \<open>n2\<close> is at most its \<open>Remaining\<close> at
  \<open>n1\<close>.
\<close>

theorem remaining_antitone:
  assumes "\<forall>c\<in>set cs. \<exists>a. rate c = Fin a \<and> 0 \<le> a"
    and "finite_onhand H"
    and "n1 < n2"
    and "compute_results cs H n1 = Inr (d1, m1, s1)"
  shows "\<exists>d2 s2. compute_results cs H n2 = Inr (d2, m1, s2)
           \<and> list_all2 (\<lambda>r1 r2. Component r1 = Component r2 \<and> UOM r1 = UOM r2
                          \<and> On_Hand r1 = On_Hand r2 \<and> Per_Case r1 = Per_Case r2
                          \<and> fle (Remaining r2) (Remaining r1)) d1 d2"
proof -
  define zs where "zs = sort_key fst (with_on_hand cs H)"
  from assms(4) obtain mb where mb: "find_bottleneck (build_df cs H n1) = Inr mb"
    "d1 = sort_key Component (build_df cs H n1)" "m1 = fst mb"
    by (auto simp: compute_results_def compute_locals_closed split: sum.splits)
  have mb2: "find_bottleneck (build_df cs H n2) = Inr mb"
    using mb(1) find_bottleneck_order_size [of cs H n1 n2] by simp
  have d1: "d1 = map (make_row n1) zs" by (simp add: mb(2) display_rows zs_def)
  have res2: "compute_results cs H n2 =
      Inr (map (make_row n2) zs, m1, filter (\<lambda>r. flt (Remaining r) (Fin 0)) (build_df cs H n2))"
    by (simp add: compute_results_def compute_locals_closed mb2 mb(3) display_rows zs_def)
  have row: "Component (make_row n1 z) = Component (make_row n2 z)
        \<and> UOM (make_row n1 z) = UOM (make_row n2 z)
        \<and> On_Hand (make_row n1 z) = On_Hand (make_row n2 z)
        \<and> Per_Case (make_row n1 z) = Per_Case (make_row n2 z)
        \<and> fle (Remaining (make_row n2 z)) (Remaining (make_row n1 z))"
    if "z \<in> set zs" for z
  proof -
    obtain nm p u q where z: "z = (nm, p, u, q)" by (cases z)
    from that have zin: "z \<in> set (with_on_hand cs H)" by (simp add: zs_def)
    then obtain c where "c \<in> set cs" "numeric (fst (snd z)) = rate c"
      using merged_rate by blast
    with assms(1) obtain a where a: "numeric p = Fin a" "0 \<le> a"
      by (auto simp: z)
    from merged_on_hand_finite [OF assms(2) zin] obtain b where b: "numeric q = Fin b"
      by (auto simp: z)
    have "fle (Remaining (make_row n2 z)) (Remaining (make_row n1 z))"
      unfolding z using a b assms(3) by (intro remaining_le) simp_all
    then show ?thesis by (simp add: z)
  qed
  have "list_all2 (\<lambda>r1 r2. Component r1 = Component r2 \<and> UOM r1 = UOM r2
                          \<and> On_Hand r1 = On_Hand r2 \<and> Per_Case r1 = Per_Case r2
                          \<and> fle (Remaining r2) (Remaining r1))
          (map (make_row n1) zs) (map (make_row n2) zs)"
    using row by (simp add: list_all2_map1 list_all2_map2 list_all2_same)
  with res2 d1 show ?thesis by blast
qed

theorem remaining_antitone_witness:
  "(400 :: real) < 600
   \<and> finite_onhand (Some [(''Bottle'', Num (Fin 500)), (''Label'', Num (Fin 1000))])
   \<and> compute_results [(''Bottle'', Num (Fin 1), ''ea''), (''Label'', Num (Fin 2), ''ea'')]
        (Some [(''Bottle'', Num (Fin 500)), (''Label'', Num (Fin 1000))]) 400 =
      Inr ([\<lparr>Component = ''Bottle'', UOM = ''ea'', On_Hand = Fin 500, Per_Case = Fin 1,
             Required = Fin 400, Remaining = Fin 100\<rparr>,
            \<lparr>Component = ''Label'', UOM = ''ea'', On_Hand = Fin 1000, Per_Case = Fin 2,
             Required = Fin 800, Remaining = Fin 200\<rparr>], 500, [])
   \<and> (\<exists>d2 s2.
         compute_results [(''Bottle'', Num (Fin 1), ''ea''), (''Label'', Num (Fin 2), ''ea'')]
           (Some [(''Bottle'', Num (Fin 500)), (''Label'', Num (Fin 1000))]) 600 =
         Inr (d2, 500, s2)
         \<and> list_all2 (\<lambda>r1 r2. Component r1 = Component r2 \<and> UOM r1 = UOM r2
                          \<and> On_Hand r1 = On_Hand r2 \<and> Per_Case r1 = Per_Case r2
                          \<and> fle (Remaining r2) (Remaining r1))
              [\<lparr>Component = ''Bottle'', UOM = ''ea'', On_Hand = Fin 500, Per_Case = Fin 1,
                Required = Fin 400, Remaining = Fin 100\<rparr>,
               \<lparr>Component = ''Label'', UOM = ''ea'', On_Hand = Fin 1000, Per_Case = Fin 2,
                Required = Fin 800, Remaining = Fin 200\<rparr>] d2)"
proof -
  let ?cs = "[(''Bottle'', Num (Fin 1), ''ea''), (''Label'', Num (Fin 2), ''ea'')]"
  let ?H = "Some [(''Bottle'', Num (Fin 500)), (''Label'', Num (Fin 1000))]"
  have h1: "\<forall>c\<in>set ?cs. \<exists>a. rate c = Fin a \<and> 0 \<le> a"
    by (simp add: rate_def numeric_def fillna_def to_numeric_def)
  have h2: "finite_onhand ?H" by (simp add: finite_onhand_def finite_cell_def)
  have h3: "(400 :: real) < 600" by simp
  have h4: "compute_results ?cs ?H 400 =
      Inr ([\<lparr>Component = ''Bottle'', UOM = ''ea'', On_Hand = Fin 500, Per_Case = Fin 1,
             Required = Fin 400, Remaining = Fin 100\<rparr>,
            \<lparr>Component = ''Label'', UOM = ''ea'', On_Hand = Fin 1000, Per_Case = Fin 2,
             Required = Fin 800, Remaining = Fin 200\<rparr>], 500, [])"
    by (simp add: compute_defs)
  show ?thesis
    using h2 h3 h4 remaining_antitone [OF h1 h2 h3 h4] by blast
qed

text \<open>
  C8 as stated fails: with a rate of -1 the remaining quantity is 0 at order size 0 and
  1 at order size 1.
\<close>

theorem remaining_grows_with_negative_rate:
  "compute_results [(''Foam'', Num (Fin (- 1)), ''l'')] (Some [(''Foam'', Num (Fin 0))]) 0 =
     Inr ([\<lparr>Component = ''Foam'', UOM = ''l'', On_Hand = Fin 0, Per_Case = Fin (- 1),
            Required = Fin 0, Remaining = Fin 0\<rparr>], 0, [])
   \<and> compute_results [(''Foam'', Num (Fin (- 1)), ''l'')] (Some [(''Foam'', Num (Fin 0))]) 1 =
     Inr ([\<lparr>Component = ''Foam'', UOM = ''l'', On_Hand = Fin 0, Per_Case = Fin (- 1),
            Required = Fin (- 1), Remaining = Fin 1\<rparr>], 0, [])
   \<and> \<not> fle (Fin 1) (Fin 0)"
  by (simp add: compute_defs)

text \<open>
  C9. For an empty components table, any on-hand table and any order size,
  \<open>compute_results\<close> raises nothing and returns an empty display, 0 sellable cases and no
  shortage; the local \<open>bottleneck\<close> is \<open>None\<close>.
\<close>

theorem empty_components:
  "compute_locals [] H n =
     Inr \<lparr>display = [], max_sellable = 0, shortages = [], bottleneck_of = None\<rparr>
   \<and> compute_results [] H n = Inr ([], 0, [])"
  by (cases H) (simp_all add: compute_defs)

text \<open>
  C10. The quotient of line 86 is taken only on rows whose rate is positive, and there
  the divisor is not zero; every other row, of rate zero or negative, gets positive
  infinity with no division. So no row, no column and no call of \<open>compute_results\<close>
  ends in \<open>ZeroDivisionError\<close>.
\<close>

theorem no_division_by_zero:
  "(\<not> flt (Fin 0) (Per_Case r) \<longrightarrow> max_cases_by_item r = Inr PInf)
   \<and> (flt (Fin 0) (Per_Case r) \<longrightarrow>
        Per_Case r \<noteq> Fin 0 \<and> max_cases_by_item r = py_div (On_Hand r) (Per_Case r))
   \<and> max_cases_by_item r \<noteq> Inl ZeroDivisionError
   \<and> max_cases_by_item (r\<lparr>Per_Case := Fin 0\<rparr>) = Inr PInf
   \<and> apply_rows max_cases_by_item df \<noteq> Inl ZeroDivisionError
   \<and> compute_locals cs H n \<noteq> Inl ZeroDivisionError
   \<and> compute_results cs H n \<noteq> Inl ZeroDivisionError"
proof -
  have "compute_locals cs H n \<noteq> Inl ZeroDivisionError"
    using find_bottleneck_not_zero_division [of "build_df cs H n"]
    by (auto simp: compute_locals_def Let_def split: sum.splits)
  moreover have "max_cases_by_item (r\<lparr>Per_Case := Fin 0\<rparr>) = Inr PInf"
    by (simp add: max_cases_by_item_def)
  moreover have "\<not> flt (Fin 0) (Per_Case r) \<longrightarrow> max_cases_by_item r = Inr PInf"
    by (simp add: max_cases_by_item_def)
  moreover have "flt (Fin 0) (Per_Case r) \<longrightarrow>
      Per_Case r \<noteq> Fin 0 \<and> max_cases_by_item r = py_div (On_Hand r) (Per_Case r)"
    by (auto simp: max_cases_by_item_def)
  ultimately show ?thesis
    by (auto simp: max_cases_by_item_ratio apply_rows_ratio compute_results_def
        split: sum.splits)
qed

theorem no_division_by_zero_witness:
  "\<not> flt (Fin 0) (Per_Case \<lparr>Component = ''Foam'', UOM = ''l'', On_Hand = Fin 10,
        Per_Case = Fin (- 2), Required = Fin 0, Remaining = Fin 10\<rparr>)
   \<and> max_cases_by_item \<lparr>Component = ''Foam'', UOM = ''l'', On_Hand = Fin 10,
        Per_Case = Fin (- 2), Required = Fin 0, Remaining = Fin 10\<rparr> = Inr PInf
   \<and> flt (Fin 0) (Per_Case \<lparr>Component = ''Cap'', UOM = ''ea'', On_Hand = Fin 10,
        Per_Case = Fin 4, Required = Fin 0, Remaining = Fin 10\<rparr>)
   \<and> max_cases_by_item \<lparr>Component = ''Cap'', UOM = ''ea'', On_Hand = Fin 10,
        Per_Case = Fin 4, Required = Fin 0, Remaining = Fin 10\<rparr> = Inr (Fin (5 / 2))"
proof -
  let ?foam = "\<lparr>Component = ''Foam'', UOM = ''l'', On_Hand = Fin 10,
        Per_Case = Fin (- 2), Required = Fin 0, Remaining = Fin 10\<rparr>"
  let ?cap = "\<lparr>Component = ''Cap'', UOM = ''ea'', On_Hand = Fin 10,
        Per_Case = Fin 4, Required = Fin 0, Remaining = Fin 10\<rparr>"
  have neg: "\<not> flt (Fin 0) (Per_Case ?foam)" by simp
  have pos: "flt (Fin 0) (Per_Case ?cap)" by simp
  have q: "py_div (On_Hand ?cap) (Per_Case ?cap) = Inr (Fin (5 / 2))"
    by (simp add: round_eval Let_def)
  have "max_cases_by_item ?foam = Inr PInf"
    using no_division_by_zero [of ?foam] neg by blast
  moreover have "max_cases_by_item ?cap = Inr (Fin (5 / 2))"
    using no_division_by_zero [of ?cap] pos q by simp
  ultimately show ?thesis using neg pos by blast
qed

end
